theory Spec2Isabelle
  imports Main "HOL-Library.Sublist"
begin

section \<open>JavaScript strings and numbers\<close>

text \<open>
  A JavaScript string is a sequence of UTF-16 code units. The model uses \<open>string\<close>
  (\<open>char list\<close>), so it covers the strings whose code units are below 256; every marker the
  diff code looks for is ASCII. A JavaScript number is a double; every number below is an
  integer whose magnitude stays under \<open>2^53\<close> for inputs of realistic size (counts, indices,
  the running hash of a text shorter than \<open>2^21\<close> code units, task numbers below
  \<open>2^52\<close>), where double arithmetic is exact, and is modelled by \<open>nat\<close> or \<open>int\<close>.
\<close>

abbreviation NL :: char where "NL \<equiv> CHR 0x0A"
abbreviation CR :: char where "CR \<equiv> CHR 0x0D"

definition startsWith :: "string \<Rightarrow> string \<Rightarrow> bool" where
  \<comment> \<open>\<open>s.startsWith(p)\<close>\<close>
  "startsWith s p = prefix p s"

definition endsWith :: "string \<Rightarrow> string \<Rightarrow> bool" where
  \<comment> \<open>\<open>s.endsWith(p)\<close>\<close>
  "endsWith s p = suffix p s"

definition includes_str :: "string \<Rightarrow> string \<Rightarrow> bool" where
  \<comment> \<open>\<open>s.includes(p)\<close>\<close>
  "includes_str s p = sublist p s"

definition isWhiteSpace :: "char \<Rightarrow> bool" where
  \<comment> \<open>WhiteSpace and LineTerminator code units below 256: TAB, LF, VT, FF, CR, SP, NBSP\<close>
  "isWhiteSpace c = ((of_char c :: nat) \<in> {9, 10, 11, 12, 13, 32, 160})"

definition trim :: "string \<Rightarrow> string" where
  \<comment> \<open>\<open>s.trim()\<close>\<close>
  "trim s = rev (dropWhile isWhiteSpace (rev (dropWhile isWhiteSpace s)))"

fun splitLines :: "string \<Rightarrow> string list" where
  \<comment> \<open>\<open>s.split("\n")\<close>: never empty, \<open>"".split("\n")\<close> is \<open>[""]\<close>\<close>
  "splitLines [] = [[]]"
| "splitLines (c # cs) =
     (if c = NL then [] # splitLines cs
      else (case splitLines cs of [] \<Rightarrow> [[c]] | l # ls \<Rightarrow> (c # l) # ls))"

fun joinLines :: "string list \<Rightarrow> string" where
  \<comment> \<open>\<open>xs.join("\n")\<close>\<close>
  "joinLines [] = []"
| "joinLines [l] = l"
| "joinLines (l # m # ls) = l @ NL # joinLines (m # ls)"

fun normalizeCRLF :: "string \<Rightarrow> string" where
  \<comment> \<open>\<open>s.replace(/\r\n/g, "\n")\<close>\<close>
  "normalizeCRLF [] = []"
| "normalizeCRLF [c] = [c]"
| "normalizeCRLF (c # d # cs) =
     (if c = CR \<and> d = NL then NL # normalizeCRLF cs else c # normalizeCRLF (d # cs))"

definition isDigit :: "char \<Rightarrow> bool" where
  \<comment> \<open>the regular expression class \<open>\d\<close> and the decimal digits of \<open>parseInt\<close>\<close>
  "isDigit c = (48 \<le> (of_char c :: nat) \<and> (of_char c :: nat) \<le> 57)"

definition digitChar :: "nat \<Rightarrow> char" where
  "digitChar d = ''0123456789abcdefghijklmnopqrstuvwxyz'' ! d"

function toStringRadix :: "nat \<Rightarrow> nat \<Rightarrow> string" where
  \<comment> \<open>\<open>n.toString(b)\<close> for a non-negative integer \<open>n\<close> and \<open>2 \<le> b \<le> 36\<close>\<close>
  "toStringRadix b n =
     (if b < 2 \<or> n < b then [digitChar n]
      else toStringRadix b (n div b) @ [digitChar (n mod b)])"
  by pat_completeness auto
termination
  by (relation "measure snd") auto

declare toStringRadix.simps [simp del]

subsection \<open>The content hash\<close>

definition toInt32 :: "int \<Rightarrow> int" where
  \<comment> \<open>ToInt32: reduce modulo \<open>2^32\<close> into the signed range\<close>
  "toInt32 x = (let m = x mod 4294967296 in if 2147483648 \<le> m then m - 4294967296 else m)"

definition shiftLeft5 :: "int \<Rightarrow> int" where
  \<comment> \<open>\<open>hash << 5\<close>: the operand is converted with ToInt32, the result is a signed 32-bit value\<close>
  "shiftLeft5 x = toInt32 (toInt32 x * 32)"

fun hashLoop :: "int \<Rightarrow> string \<Rightarrow> int" where
  \<comment> \<open>the loop of \<open>hashString\<close>: \<open>hash = ((hash << 5) + hash) + str.charCodeAt(i)\<close>\<close>
  "hashLoop hash [] = hash"
| "hashLoop hash (c # cs) = hashLoop ((shiftLeft5 hash + hash) + int (of_char c)) cs"

definition hashString :: "string \<Rightarrow> string" where
  \<comment> \<open>\<open>(hash >>> 0).toString(36)\<close> with \<open>hash\<close> starting at 5381\<close>
  "hashString str = toStringRadix 36 (nat (hashLoop 5381 str mod 4294967296))"

section \<open>The diff splitter\<close>

subsection \<open>The hunk-header pattern\<close>

text \<open>
  \<open>/^@@ -\d+(?:,\d+)? \+\d+(?:,\d+)? @@/\<close>, matched from the start of the line. Each \<open>\d+\<close>
  is followed in the pattern by a character that is not a digit, and each optional group by a
  space, so the leftmost-longest scan below finds a match exactly when the backtracking
  matcher does.
\<close>

definition matchLiteral :: "string \<Rightarrow> string \<Rightarrow> string option" where
  "matchLiteral p s = (if startsWith s p then Some (drop (length p) s) else None)"

definition matchDigits :: "string \<Rightarrow> string option" where
  \<comment> \<open>\<open>\d+\<close>\<close>
  "matchDigits s = (if takeWhile isDigit s = [] then None else Some (dropWhile isDigit s))"

definition matchOptCount :: "string \<Rightarrow> string" where
  \<comment> \<open>\<open>(?:,\d+)?\<close>\<close>
  "matchOptCount s =
     (case matchLiteral '','' s of
        None \<Rightarrow> s
      | Some r \<Rightarrow> (case matchDigits r of None \<Rightarrow> s | Some r' \<Rightarrow> r'))"

definition hunkHeaderRegex :: "string \<Rightarrow> bool" where
  \<comment> \<open>\<open>hunkHeaderRegex.test(line)\<close>\<close>
  "hunkHeaderRegex line =
     (case matchLiteral ''@@ -'' line of
        None \<Rightarrow> False
      | Some r1 \<Rightarrow>
          (case matchDigits r1 of
             None \<Rightarrow> False
           | Some r2 \<Rightarrow>
               (case matchLiteral '' +'' (matchOptCount r2) of
                  None \<Rightarrow> False
                | Some r3 \<Rightarrow>
                    (case matchDigits r3 of
                       None \<Rightarrow> False
                     | Some r4 \<Rightarrow> matchLiteral '' @@'' (matchOptCount r4) \<noteq> None))))"

subsection \<open>validateDiffHunk\<close>

record validation =
  valid :: bool
  reason :: "string option"

fun findIndexFrom :: "('a \<Rightarrow> bool) \<Rightarrow> 'a list \<Rightarrow> int \<Rightarrow> int" where
  "findIndexFrom P [] i = - 1"
| "findIndexFrom P (x # xs) i = (if P x then i else findIndexFrom P xs (i + 1))"

definition findIndex :: "('a \<Rightarrow> bool) \<Rightarrow> 'a list \<Rightarrow> int" where
  \<comment> \<open>\<open>xs.findIndex(P)\<close>: the first index whose element satisfies \<open>P\<close>, or -1\<close>
  "findIndex P xs = findIndexFrom P xs 0"

function hasHunkLoop :: "string list \<Rightarrow> nat \<Rightarrow> bool" where
  \<comment> \<open>\<open>for (let i = ...; i < lines.length; i++) if (hunkHeaderRegex.test(lines[i])) ...\<close>\<close>
  "hasHunkLoop lines i =
     (if i < length lines
      then (if hunkHeaderRegex (lines ! i) then True else hasHunkLoop lines (i + 1))
      else False)"
  by pat_completeness auto
termination
  by (relation "measure (\<lambda>(lines, i). length lines - i)") auto

declare hasHunkLoop.simps [simp del]

definition validateDiffHunk :: "string \<Rightarrow> validation" where
  "validateDiffHunk block =
     (if block = [] \<or> length (trim block) = 0
      then \<lparr>valid = False, reason = Some ''empty diff''\<rparr>
      else
        let lines = splitLines block;
            minusLineIdx = findIndex (\<lambda>l. startsWith l ''--- '') lines;
            plusLineIdx = findIndex (\<lambda>l. startsWith l ''+++ '') lines
        in
          if minusLineIdx = - 1 \<or> plusLineIdx = - 1
          then \<lparr>valid = False, reason = Some ''missing header lines''\<rparr>
          else if plusLineIdx \<le> minusLineIdx
          then \<lparr>valid = False, reason = Some ''header order wrong''\<rparr>
          else if includes_str block ''new mode'' \<or>
                  includes_str block ''old mode'' \<or>
                  includes_str block ''rename from'' \<or>
                  includes_str block ''rename to'' \<or>
                  includes_str block ''Binary files''
          then \<lparr>valid = True, reason = None\<rparr>
          else if \<not> hasHunkLoop lines (nat (plusLineIdx + 1))
          then \<lparr>valid = False, reason = Some ''no hunk headers found''\<rparr>
          else \<lparr>valid = True, reason = None\<rparr>)"

subsection \<open>splitUnifiedDiffByFile\<close>

record ParsedDiffFile =
  key :: string
  oldPath :: string
  newPath :: string
  diffText :: string
  isBinary :: bool
  additions :: nat
  deletions :: nat
  isValid :: "bool option"

text \<open>
  \<open>isValid\<close> is an optional field of the source type; the splitter always sets it. The
  optional fields \<open>fileLang\<close>, \<open>isNewFile\<close> and \<open>isDeletedFile\<close> are neither written by
  the splitter nor read by any function modelled here and are left out.
\<close>

definition keepBlock :: "string \<Rightarrow> bool" where
  \<comment> \<open>the condition of \<open>pushCurrent\<close> under which the trimmed text becomes a block\<close>
  "keepBlock text =
     (text \<noteq> [] \<and>
      (startsWith text ''diff --git '' \<or>
       startsWith text ''--- '' \<or>
       startsWith text ''+++ '' \<or>
       startsWith text ''Binary files '' \<or>
       includes_str text (NL # ''+++ '') \<or>
       includes_str text (NL # ''Binary files '')))"

definition pushCurrent :: "string list \<times> string list \<Rightarrow> string list \<times> string list" where
  \<comment> \<open>the state is the pair \<open>(blocks, current)\<close> that the closure mutates\<close>
  "pushCurrent st =
     (let text = trim (joinLines (snd st))
      in (if keepBlock text then fst st @ [text] else fst st, []))"

fun splitLoop :: "string list \<Rightarrow> string list \<times> string list \<Rightarrow> string list \<times> string list" where
  \<comment> \<open>\<open>for (const line of lines) { ... }\<close>\<close>
  "splitLoop [] st = st"
| "splitLoop (line # rest) st =
     (let st1 = (if startsWith line ''diff --git '' \<and> length (snd st) > 0
                 then pushCurrent st else st)
      in splitLoop rest (fst st1, snd st1 @ [line]))"

definition diffBlocks :: "string \<Rightarrow> string list" where
  \<comment> \<open>the value of \<open>blocks\<close> after the loop and the final \<open>pushCurrent()\<close>\<close>
  "diffBlocks input =
     fst (pushCurrent (splitLoop (splitLines (normalizeCRLF input)) ([], [])))"

record blockScan =
  scanOldPath :: string
  scanNewPath :: string
  scanIsBinary :: bool
  scanAdditions :: nat
  scanDeletions :: nat

definition stripPathPrefix :: "string \<Rightarrow> string \<Rightarrow> string" where
  \<comment> \<open>\<open>raw.startsWith(p) ? raw.slice(2) : raw\<close> for the two-character prefixes a/ and b/\<close>
  "stripPathPrefix p raw = (if startsWith raw p then drop 2 raw else raw)"

definition scanLine :: "blockScan \<Rightarrow> string \<Rightarrow> blockScan" where
  \<comment> \<open>the body of \<open>for (const line of blockLines)\<close>\<close>
  "scanLine s line =
     (let s1 = (if startsWith line ''Binary files '' \<and> endsWith line '' differ''
                then s\<lparr>scanIsBinary := True\<rparr> else s);
          s2 = (if startsWith line ''--- ''
                then s1\<lparr>scanOldPath := stripPathPrefix ''a/'' (trim (drop 4 line))\<rparr> else s1);
          s3 = (if startsWith line ''+++ ''
                then s2\<lparr>scanNewPath := stripPathPrefix ''b/'' (trim (drop 4 line))\<rparr> else s2)
      in if startsWith line ''+'' \<and> \<not> startsWith line ''+++ ''
         then s3\<lparr>scanAdditions := scanAdditions s3 + 1\<rparr>
         else if startsWith line ''-'' \<and> \<not> startsWith line ''--- ''
         then s3\<lparr>scanDeletions := scanDeletions s3 + 1\<rparr>
         else s3)"

definition scanInit :: blockScan where
  "scanInit = \<lparr>scanOldPath = [], scanNewPath = [], scanIsBinary = False,
               scanAdditions = 0, scanDeletions = 0\<rparr>"

definition parseBlock :: "string \<Rightarrow> nat \<Rightarrow> ParsedDiffFile" where
  \<comment> \<open>the callback of \<open>blocks.map((blockText, index) => ...)\<close>\<close>
  "parseBlock blockText index =
     (let s = foldl scanLine scanInit (splitLines blockText);
          k = (if scanOldPath s \<noteq> [] \<or> scanNewPath s \<noteq> []
               then scanOldPath s @ ''->'' @ scanNewPath s
               else ''file-'' @ toStringRadix 10 index);
          validation = (if scanIsBinary s then \<lparr>valid = True, reason = None\<rparr>
                        else validateDiffHunk blockText)
      in \<lparr>key = k, oldPath = scanOldPath s, newPath = scanNewPath s, diffText = blockText,
          isBinary = scanIsBinary s, additions = scanAdditions s, deletions = scanDeletions s,
          isValid = Some (valid validation)\<rparr>)"

definition splitUnifiedDiffByFile :: "string \<Rightarrow> ParsedDiffFile list" where
  "splitUnifiedDiffByFile input =
     map (\<lambda>(index, blockText). parseBlock blockText index) (enumerate 0 (diffBlocks input))"

subsection \<open>The splitter as it is called at run time\<close>

text \<open>
  At run time the type annotations are erased: the argument of a function, an element of an
  array and the value of a loop variable can be \<open>null\<close> or \<open>undefined\<close> as well as a string.
  The source has no \<open>throw\<close> statement; what can raise is a method call whose receiver is
  \<open>null\<close> or \<open>undefined\<close>, a TypeError. The functions below are the splitter and the
  validator once more, with values in place of strings wherever the source reads an argument
  or an array, and with an error result at each method call on such a value. A receiver
  that is itself the result of a string method (\<open>join\<close>, \<open>trim\<close>, \<open>slice\<close>, \<open>replace\<close>) is a
  string. An array read by index yields \<open>undefined\<close> out of range without raising, and
  \<open>RegExp.prototype.test\<close> converts its argument to a string.
\<close>

datatype jsValue = JSString string | JSNull | JSUndefined

datatype jsError = TypeError

definition callMethod :: "jsValue \<Rightarrow> (string \<Rightarrow> 'a) \<Rightarrow> jsError + 'a" where
  \<comment> \<open>\<open>v.m(...)\<close> for a string method \<open>m\<close>: a TypeError when \<open>v\<close> is \<open>null\<close> or
      \<open>undefined\<close>\<close>
  "callMethod v m =
     (case v of JSString s \<Rightarrow> Inr (m s) | JSNull \<Rightarrow> Inl TypeError | JSUndefined \<Rightarrow> Inl TypeError)"

definition elementText :: "jsValue \<Rightarrow> string" where
  \<comment> \<open>the text \<open>Array.prototype.join\<close> takes for an element: empty for \<open>null\<close> and
      \<open>undefined\<close>\<close>
  "elementText v = (case v of JSString s \<Rightarrow> s | JSNull \<Rightarrow> [] | JSUndefined \<Rightarrow> [])"

definition toStringJS :: "jsValue \<Rightarrow> string" where
  \<comment> \<open>ToString, which \<open>RegExp.prototype.test\<close> applies to its argument\<close>
  "toStringJS v =
     (case v of JSString s \<Rightarrow> s | JSNull \<Rightarrow> ''null'' | JSUndefined \<Rightarrow> ''undefined'')"

definition elementAt :: "jsValue list \<Rightarrow> nat \<Rightarrow> jsValue" where
  \<comment> \<open>\<open>xs[i]\<close>: \<open>undefined\<close> out of range\<close>
  "elementAt xs i = (if i < length xs then xs ! i else JSUndefined)"

definition strSplit :: "string \<Rightarrow> jsValue list" where
  \<comment> \<open>\<open>s.split("\n")\<close> as an array of values\<close>
  "strSplit s = map JSString (splitLines s)"

definition pushCurrentJS :: "jsValue list \<times> jsValue list \<Rightarrow> jsValue list \<times> jsValue list" where
  \<comment> \<open>\<open>current.join("\n").trim()\<close> and the tests on \<open>text\<close>: every receiver is the result
      of a string method\<close>
  "pushCurrentJS st =
     (let text = trim (joinLines (map elementText (snd st)))
      in (if keepBlock text then fst st @ [JSString text] else fst st, []))"

fun splitLoopJS ::
  "jsValue list \<Rightarrow> jsValue list \<times> jsValue list
     \<Rightarrow> jsError + jsValue list \<times> jsValue list" where
  \<comment> \<open>\<open>for (const line of lines)\<close>, with the method call \<open>line.startsWith\<close>\<close>
  "splitLoopJS [] st = Inr st"
| "splitLoopJS (line # rest) st =
     (case callMethod line (\<lambda>l. startsWith l ''diff --git '') of
        Inl e \<Rightarrow> Inl e
      | Inr isHeader \<Rightarrow>
          (let st1 = (if isHeader \<and> length (snd st) > 0 then pushCurrentJS st else st)
           in splitLoopJS rest (fst st1, snd st1 @ [line])))"

fun scanLoopJS :: "blockScan \<Rightarrow> jsValue list \<Rightarrow> jsError + blockScan" where
  \<comment> \<open>\<open>for (const line of blockLines)\<close>: every method call of the body that has a value
      of the array as receiver has \<open>line\<close>, the first is \<open>line.startsWith\<close>\<close>
  "scanLoopJS s [] = Inr s"
| "scanLoopJS s (line # rest) =
     (case callMethod line (scanLine s) of
        Inl e \<Rightarrow> Inl e
      | Inr s' \<Rightarrow> scanLoopJS s' rest)"

fun findIndexFromJS :: "(string \<Rightarrow> bool) \<Rightarrow> jsValue list \<Rightarrow> int \<Rightarrow> jsError + int" where
  \<comment> \<open>\<open>lines.findIndex((l) => l.startsWith(...))\<close>: the callback runs on each element in
      turn until it holds\<close>
  "findIndexFromJS P [] i = Inr (- 1)"
| "findIndexFromJS P (x # xs) i =
     (case callMethod x P of
        Inl e \<Rightarrow> Inl e
      | Inr found \<Rightarrow> if found then Inr i else findIndexFromJS P xs (i + 1))"

function hasHunkLoopJS :: "jsValue list \<Rightarrow> nat \<Rightarrow> bool" where
  \<comment> \<open>the loop over \<open>hunkHeaderRegex.test(lines[i]!)\<close>; the assertion \<open>!\<close> is erased\<close>
  "hasHunkLoopJS lines i =
     (if i < length lines
      then (if hunkHeaderRegex (toStringJS (elementAt lines i)) then True
            else hasHunkLoopJS lines (i + 1))
      else False)"
  by pat_completeness auto
termination
  by (relation "measure (\<lambda>(lines, i). length lines - i)") auto

declare hasHunkLoopJS.simps [simp del]

definition validateDiffHunkJS :: "jsValue \<Rightarrow> jsError + validation" where
  \<comment> \<open>\<open>!diffText\<close> holds of \<open>null\<close>, \<open>undefined\<close> and the empty string; \<open>b\<close> is the
      receiver of \<open>trim\<close>, \<open>split\<close> and \<open>includes\<close>\<close>
  "validateDiffHunkJS block =
     (if block = JSNull \<or> block = JSUndefined \<or> block = JSString []
      then Inr \<lparr>valid = False, reason = Some ''empty diff''\<rparr>
      else
        (case callMethod block (\<lambda>b. b) of
           Inl e \<Rightarrow> Inl e
         | Inr b \<Rightarrow>
             if length (trim b) = 0
             then Inr \<lparr>valid = False, reason = Some ''empty diff''\<rparr>
             else
               (let lines = strSplit b
                in case findIndexFromJS (\<lambda>l. startsWith l ''--- '') lines 0 of
                     Inl e \<Rightarrow> Inl e
                   | Inr minusLineIdx \<Rightarrow>
                       (case findIndexFromJS (\<lambda>l. startsWith l ''+++ '') lines 0 of
                          Inl e \<Rightarrow> Inl e
                        | Inr plusLineIdx \<Rightarrow>
                            Inr (if minusLineIdx = - 1 \<or> plusLineIdx = - 1
                                 then \<lparr>valid = False, reason = Some ''missing header lines''\<rparr>
                                 else if plusLineIdx \<le> minusLineIdx
                                 then \<lparr>valid = False, reason = Some ''header order wrong''\<rparr>
                                 else if includes_str b ''new mode'' \<or>
                                         includes_str b ''old mode'' \<or>
                                         includes_str b ''rename from'' \<or>
                                         includes_str b ''rename to'' \<or>
                                         includes_str b ''Binary files''
                                 then \<lparr>valid = True, reason = None\<rparr>
                                 else if \<not> hasHunkLoopJS lines (nat (plusLineIdx + 1))
                                 then \<lparr>valid = False, reason = Some ''no hunk headers found''\<rparr>
                                 else \<lparr>valid = True, reason = None\<rparr>)))))"

definition parseBlockJS :: "jsValue \<Rightarrow> nat \<Rightarrow> jsError + ParsedDiffFile" where
  \<comment> \<open>the callback of \<open>blocks.map\<close>; its first method call is \<open>blockText.split\<close>\<close>
  "parseBlockJS blockText index =
     (case callMethod blockText (\<lambda>b. (b, strSplit b)) of
        Inl e \<Rightarrow> Inl e
      | Inr (b, blockLines) \<Rightarrow>
          (case scanLoopJS scanInit blockLines of
             Inl e \<Rightarrow> Inl e
           | Inr s \<Rightarrow>
               (case (if scanIsBinary s then Inr \<lparr>valid = True, reason = None\<rparr>
                      else validateDiffHunkJS blockText) of
                  Inl e \<Rightarrow> Inl e
                | Inr validation \<Rightarrow>
                    Inr \<lparr>key = (if scanOldPath s \<noteq> [] \<or> scanNewPath s \<noteq> []
                                then scanOldPath s @ ''->'' @ scanNewPath s
                                else ''file-'' @ toStringRadix 10 index),
                         oldPath = scanOldPath s, newPath = scanNewPath s, diffText = b,
                         isBinary = scanIsBinary s, additions = scanAdditions s,
                         deletions = scanDeletions s,
                         isValid = Some (valid validation)\<rparr>)))"

fun mapBlocksJS :: "jsValue list \<Rightarrow> nat \<Rightarrow> jsError + ParsedDiffFile list" where
  \<comment> \<open>\<open>blocks.map((blockText, index) => ...)\<close>: an exception of the callback ends the map\<close>
  "mapBlocksJS [] index = Inr []"
| "mapBlocksJS (blockText # rest) index =
     (case parseBlockJS blockText index of
        Inl e \<Rightarrow> Inl e
      | Inr r \<Rightarrow>
          (case mapBlocksJS rest (index + 1) of
             Inl e \<Rightarrow> Inl e
           | Inr rs \<Rightarrow> Inr (r # rs)))"

definition splitUnifiedDiffByFileJS :: "jsValue \<Rightarrow> jsError + ParsedDiffFile list" where
  "splitUnifiedDiffByFileJS diffValue =
     (case callMethod diffValue normalizeCRLF of
        Inl e \<Rightarrow> Inl e
      | Inr normalized \<Rightarrow>
          (case splitLoopJS (strSplit normalized) ([], []) of
             Inl e \<Rightarrow> Inl e
           | Inr st \<Rightarrow> mapBlocksJS (fst (pushCurrentJS st)) 0))"

definition allFileDiffs :: "ParsedDiffFile list option \<Rightarrow> jsValue \<Rightarrow> ParsedDiffFile list" where
  \<comment> \<open>the memo \<open>allFileDiffs\<close>: pre-parsed files win when there are any; a falsy \<open>diff\<close>
      gives no record; an exception of the splitter is caught and gives no record\<close>
  "allFileDiffs initialParsedFiles diff =
     (let parsed =
            (if diff = JSNull \<or> diff = JSUndefined \<or> diff = JSString [] then []
             else (case splitUnifiedDiffByFileJS diff of
                     Inl e \<Rightarrow> []
                   | Inr records \<Rightarrow> records))
      in case initialParsedFiles of
           None \<Rightarrow> parsed
         | Some files \<Rightarrow> if length files > 0 then files else parsed)"

section \<open>Viewed-state tracking\<close>

record ViewedFileState =
  viewed :: bool
  contentHash :: string

record undoEntry =
  undoFileKey :: string
  previousState :: "ViewedFileState option"

text \<open>
  The component state the viewed-state callbacks read and write: the atom \<open>viewedFiles\<close>
  (an object keyed by file key), the ref \<open>viewedUndoStackRef.current\<close> and the local state
  \<open>collapsedByFileKey\<close>. A key that is absent from an object reads as \<open>undefined\<close>, here
  \<open>None\<close>. Each callback is modelled on the state of the render in which it runs, so a
  callback sees the writes of the callbacks before it.
\<close>

record diffViewState =
  viewedFiles :: "string \<rightharpoonup> ViewedFileState"
  viewedUndoStack :: "undoEntry list"
  collapsedByFileKey :: "string \<rightharpoonup> bool"

definition isFileViewed :: "(string \<rightharpoonup> ViewedFileState) \<Rightarrow> string \<Rightarrow> string \<Rightarrow> bool" where
  "isFileViewed vf fileKey text =
     (case vf fileKey of
        None \<Rightarrow> False
      | Some viewedState \<Rightarrow>
          if \<not> viewed viewedState then False
          else contentHash viewedState = hashString text)"

definition selectablePath :: "ParsedDiffFile \<Rightarrow> string option" where
  \<comment> \<open>the path handed to \<open>onSelectNextFile\<close> for a file, if the callback is called at all\<close>
  "selectablePath file =
     (let filePath = (if newPath file \<noteq> [] \<and> newPath file \<noteq> ''/dev/null''
                      then newPath file else oldPath file)
      in if filePath \<noteq> [] \<and> filePath \<noteq> ''/dev/null'' then Some filePath else None)"

definition nextUnviewedFile ::
  "ParsedDiffFile list \<Rightarrow> (string \<rightharpoonup> ViewedFileState) \<Rightarrow> nat \<Rightarrow> ParsedDiffFile option" where
  \<comment> \<open>the two \<open>for\<close> loops of \<open>handleToggleViewed\<close>: indices after \<open>currentIndex\<close> first,
      then indices before it; each loop stops at the first file that is not viewed\<close>
  "nextUnviewedFile allFiles newViewedFiles currentIndex =
     (case find (\<lambda>file. \<not> isFileViewed newViewedFiles (key file) (diffText file))
             (drop (currentIndex + 1) allFiles) of
        Some file \<Rightarrow> Some file
      | None \<Rightarrow>
          find (\<lambda>file. \<not> isFileViewed newViewedFiles (key file) (diffText file))
            (take currentIndex allFiles))"

definition handleToggleViewed ::
  "ParsedDiffFile list \<Rightarrow> bool \<Rightarrow> string \<Rightarrow> string \<Rightarrow> diffViewState
     \<Rightarrow> diffViewState \<times> string option" where
  \<comment> \<open>\<open>allFiles\<close> is \<open>allFileDiffs\<close>; \<open>hasOnSelectNextFile\<close> says whether the optional prop is
      supplied; the second component is the argument of the \<open>onSelectNextFile\<close> call, if any\<close>
  "handleToggleViewed allFiles hasOnSelectNextFile fileKey text s =
     (let currentHash = hashString text;
          isCurrentlyViewed = isFileViewed (viewedFiles s) fileKey text;
          willBeViewed = \<not> isCurrentlyViewed;
          pushed = viewedUndoStack s @
                     [\<lparr>undoFileKey = fileKey, previousState = viewedFiles s fileKey\<rparr>];
          stack = (if length pushed > 50 then tl pushed else pushed);
          newViewedFiles = (viewedFiles s)
                     (fileKey \<mapsto> \<lparr>viewed = willBeViewed, contentHash = currentHash\<rparr>);
          s' = s\<lparr>viewedFiles := newViewedFiles, viewedUndoStack := stack\<rparr>
      in if willBeViewed \<and> hasOnSelectNextFile
         then
           (let currentIndex = findIndex (\<lambda>f. key f = fileKey) allFiles
            in if currentIndex = - 1 then (s', None)
               else (case nextUnviewedFile allFiles newViewedFiles (nat currentIndex) of
                       None \<Rightarrow> (s', None)
                     | Some file \<Rightarrow> (s', selectablePath file)))
         else (s', None))"

definition undoLastViewed ::
  "ParsedDiffFile list \<Rightarrow> bool \<Rightarrow> diffViewState \<Rightarrow> bool \<times> diffViewState \<times> string option" where
  \<comment> \<open>the result, the new state, and the argument of the \<open>onSelectNextFile\<close> call, if any\<close>
  "undoLastViewed allFiles hasOnSelectNextFile s =
     (if viewedUndoStack s = [] then (False, s, None)
      else
        let lastAction = last (viewedUndoStack s);
            stack = butlast (viewedUndoStack s);
            fileKey = undoFileKey lastAction;
            newViewedFiles =
              (case previousState lastAction of
                 None \<Rightarrow> (viewedFiles s)(fileKey := None)
               | Some prev \<Rightarrow> (viewedFiles s)(fileKey \<mapsto> prev));
            s' = s\<lparr>viewedFiles := newViewedFiles, viewedUndoStack := stack\<rparr>
        in (case find (\<lambda>f. key f = fileKey) allFiles of
              None \<Rightarrow> (True, s', None)
            | Some file \<Rightarrow>
                (True, s', if hasOnSelectNextFile then selectablePath file else None)))"

definition markAllStep ::
  "(string \<rightharpoonup> ViewedFileState) \<times> (string \<rightharpoonup> bool) \<Rightarrow> ParsedDiffFile
     \<Rightarrow> (string \<rightharpoonup> ViewedFileState) \<times> (string \<rightharpoonup> bool)" where
  \<comment> \<open>the body of the loop of \<open>markAllViewed\<close>\<close>
  "markAllStep acc file =
     ((fst acc)(key file \<mapsto> \<lparr>viewed = True, contentHash = hashString (diffText file)\<rparr>),
      (snd acc)(key file \<mapsto> True))"

definition markAllViewed :: "ParsedDiffFile list \<Rightarrow> diffViewState \<Rightarrow> diffViewState" where
  \<comment> \<open>\<open>files\<close> is the displayed list \<open>fileDiffs\<close>\<close>
  "markAllViewed files s =
     (let acc = foldl markAllStep (Map.empty, Map.empty) files
      in s\<lparr>viewedFiles := fst acc, collapsedByFileKey := snd acc\<rparr>)"

definition isCollapsed :: "(string \<rightharpoonup> bool) \<Rightarrow> string \<Rightarrow> bool" where
  \<comment> \<open>\<open>!!collapsedByFileKey[file.key]\<close>, the display state of a card\<close>
  "isCollapsed c fileKey = (c fileKey = Some True)"

definition isStale :: "(string \<rightharpoonup> ViewedFileState) \<Rightarrow> ParsedDiffFile \<Rightarrow> bool" where
  \<comment> \<open>\<open>viewedState?.viewed && viewedState.contentHash !== hashString(file.diffText)\<close>\<close>
  "isStale vf file =
     (case vf (key file) of
        None \<Rightarrow> False
      | Some viewedState \<Rightarrow>
          viewed viewedState \<and> contentHash viewedState \<noteq> hashString (diffText file))"

definition invalidateStale ::
  "ParsedDiffFile list \<Rightarrow> (string \<rightharpoonup> ViewedFileState) \<Rightarrow> (string \<rightharpoonup> ViewedFileState)" where
  \<comment> \<open>the stale-invalidation effect: the value of the atom after the effect has run\<close>
  "invalidateStale files vf =
     (if length files = 0 then vf
      else
        let keysToInvalidate = map key (filter (isStale vf) files)
        in if length keysToInvalidate > 0
           then foldl (\<lambda>updated k. updated(k \<mapsto> \<lparr>viewed = False, contentHash = []\<rparr>))
                  vf keysToInvalidate
           else vf)"

definition getViewedCount :: "ParsedDiffFile list \<Rightarrow> (string \<rightharpoonup> ViewedFileState) \<Rightarrow> nat" where
  "getViewedCount files vf =
     length (filter (\<lambda>file. isFileViewed vf (key file) (diffText file)) files)"

section \<open>The displayed file list\<close>

definition isDisplayable :: "ParsedDiffFile \<Rightarrow> bool" where
  \<comment> \<open>the callback of the first \<open>allFileDiffs.filter\<close> in \<open>fileDiffs\<close>\<close>
  "isDisplayable file =
     (if startsWith (key file) ''file-'' \<and> oldPath file = [] \<and> newPath file = [] then False
      else if oldPath file = ''/dev/null'' \<and> newPath file = ''/dev/null'' then False
      else True)"

definition matchesFilter :: "string list \<Rightarrow> ParsedDiffFile \<Rightarrow> bool" where
  \<comment> \<open>the callback of the second filter\<close>
  "matchesFilter validFilterPaths file =
     (let filePath = (if newPath file \<noteq> ''/dev/null'' then newPath file else oldPath file)
      in list_ex (\<lambda>filterPath. filePath = filterPath \<or> endsWith filePath filterPath \<or>
                                endsWith filterPath filePath) validFilterPaths)"

definition fileDiffs :: "ParsedDiffFile list \<Rightarrow> string list option \<Rightarrow> ParsedDiffFile list" where
  \<comment> \<open>\<open>effectiveFilter\<close> is \<open>null\<close> (\<open>None\<close>) or a list of paths\<close>
  "fileDiffs allFiles effectiveFilter =
     (let validFiles = filter isDisplayable allFiles;
          validFilterPaths =
            (case effectiveFilter of
               None \<Rightarrow> []
             | Some ps \<Rightarrow> filter (\<lambda>p. p \<noteq> [] \<and> p \<noteq> ''/dev/null'') ps)
      in if length validFilterPaths = 0 then validFiles
         else filter (matchesFilter validFilterPaths) validFiles)"

definition totalAdditions :: "ParsedDiffFile list \<Rightarrow> nat" where
  \<comment> \<open>\<open>allFileDiffs.reduce((sum, f) => sum + f.additions, 0)\<close>, the total shown in the
      header and reported to the parent\<close>
  "totalAdditions allFiles = foldl (\<lambda>sum f. sum + additions f) 0 allFiles"

definition totalDeletions :: "ParsedDiffFile list \<Rightarrow> nat" where
  "totalDeletions allFiles = foldl (\<lambda>sum f. sum + deletions f) 0 allFiles"

section \<open>Task identifiers\<close>

definition decimalValue :: "string \<Rightarrow> nat" where
  \<comment> \<open>the mathematical value of a run of decimal digits\<close>
  "decimalValue Z = foldl (\<lambda>n c. n * 10 + (of_char c - 48)) 0 Z"

definition parseInt10 :: "string \<Rightarrow> int option" where
  \<comment> \<open>\<open>parseInt(str, 10)\<close>, with \<open>None\<close> for NaN: leading white space is skipped, one sign is
      read, then the longest run of decimal digits; what follows the digits is ignored\<close>
  "parseInt10 str =
     (let S = dropWhile isWhiteSpace str;
          sign = (if S \<noteq> [] \<and> hd S = CHR ''-'' then - 1 else 1 :: int);
          S1 = (if S \<noteq> [] \<and> (hd S = CHR ''+'' \<or> hd S = CHR ''-'') then tl S else S);
          Z = takeWhile isDigit S1
      in if Z = [] then None
         else Some (sign * int (decimalValue Z)))"

definition compareTaskIds :: "(string \<Rightarrow> string \<Rightarrow> int) \<Rightarrow> string \<Rightarrow> string \<Rightarrow> int" where
  \<comment> \<open>\<open>localeCompare\<close> is \<open>String.prototype.localeCompare\<close>, a built-in of the host whose
      collation depends on the locale; it is a parameter\<close>
  "compareTaskIds localeCompare a b =
     (case parseInt10 a of
        None \<Rightarrow> localeCompare a b
      | Some numA \<Rightarrow>
          (case parseInt10 b of
             None \<Rightarrow> localeCompare a b
           | Some numB \<Rightarrow> numA - numB))"

section \<open>Vocabulary of the statements about task identifiers\<close>

definition signValue :: "string \<Rightarrow> int" where
  "signValue sg = (if sg = ''-'' then - 1 else 1)"

definition leadingInteger :: "string \<Rightarrow> string \<Rightarrow> string \<Rightarrow> string \<Rightarrow> bool" where
  \<comment> \<open>a string cut into white space, an optional sign, a non-empty run of digits that ends
      where the rest begins, and the rest\<close>
  "leadingInteger ws sg ds rest =
     (list_all isWhiteSpace ws \<and> (sg = [] \<or> sg = ''+'' \<or> sg = ''-'') \<and>
      ds \<noteq> [] \<and> list_all isDigit ds \<and> (rest = [] \<or> \<not> isDigit (hd rest)))"

fun codeUnitCompare :: "string \<Rightarrow> string \<Rightarrow> int" where
  \<comment> \<open>an instance for the parameter \<open>localeCompare\<close>: lexicographic order by code unit,
      with results -1, 0 and 1\<close>
  "codeUnitCompare [] [] = 0"
| "codeUnitCompare [] (y # ys) = - 1"
| "codeUnitCompare (x # xs) [] = 1"
| "codeUnitCompare (x # xs) (y # ys) =
     (if (of_char x :: nat) < of_char y then - 1
      else if (of_char y :: nat) < of_char x then 1
      else codeUnitCompare xs ys)"

definition fullInteger :: "string \<Rightarrow> int option" where
  \<comment> \<open>follows the specification's words "parses fully as an integer": an optional sign
      and then decimal digits up to the end of the string\<close>
  "fullInteger s =
     (let sg = (if s \<noteq> [] \<and> (hd s = CHR ''+'' \<or> hd s = CHR ''-'') then [hd s] else []);
          ds = drop (length sg) s
      in if ds \<noteq> [] \<and> list_all isDigit ds
         then Some (signValue sg * int (decimalValue ds)) else None)"

definition specifiedCompare :: "(string \<Rightarrow> string \<Rightarrow> int) \<Rightarrow> string \<Rightarrow> string \<Rightarrow> int" where
  \<comment> \<open>follows the specification's words: numeric when both sides parse fully as integers,
      the string comparison otherwise\<close>
  "specifiedCompare localeCompare a b =
     (case fullInteger a of
        None \<Rightarrow> localeCompare a b
      | Some m \<Rightarrow> (case fullInteger b of None \<Rightarrow> localeCompare a b | Some n \<Rightarrow> m - n))"

section \<open>Vocabulary of the statements about blocks\<close>

definition isBinaryMarker :: "string \<Rightarrow> bool" where
  \<comment> \<open>the test by which the splitter recognises a binary marker line\<close>
  "isBinaryMarker line = (startsWith line ''Binary files '' \<and> endsWith line '' differ'')"



section \<open>The display order the specification describes\<close>

fun insertByKey ::
  "(string \<Rightarrow> string \<Rightarrow> int) \<Rightarrow> ParsedDiffFile \<Rightarrow> ParsedDiffFile list \<Rightarrow> ParsedDiffFile list" where
  "insertByKey localeCompare f [] = [f]"
| "insertByKey localeCompare f (g # gs) =
     (if compareTaskIds localeCompare (key f) (key g) \<le> 0 then f # g # gs
      else g # insertByKey localeCompare f gs)"

definition specifiedDisplayOrder ::
  "(string \<Rightarrow> string \<Rightarrow> int) \<Rightarrow> ParsedDiffFile list \<Rightarrow> ParsedDiffFile list" where
  \<comment> \<open>follows the specification's words: the files sorted by the numeric-aware comparison
      of their keys (a stable insertion sort)\<close>
  "specifiedDisplayOrder localeCompare files = foldr (insertByKey localeCompare) files []"

definition specifiedNextFocus ::
  "(string \<Rightarrow> string \<Rightarrow> int) \<Rightarrow> ParsedDiffFile list \<Rightarrow> string \<Rightarrow> string \<Rightarrow> diffViewState
     \<Rightarrow> string option" where
  \<comment> \<open>follows the specification's words: the next unviewed file is looked for in the sorted
      display order\<close>
  "specifiedNextFocus localeCompare allFiles fileKey text s =
     snd (handleToggleViewed (specifiedDisplayOrder localeCompare allFiles) True fileKey text s)"

section \<open>Sample inputs\<close>

definition sampleModifyDiff :: string where
  \<comment> \<open>one modified file: one line removed, two lines added\<close>
  "sampleModifyDiff =
     ''diff --git a/x b/x'' @ [NL] @ ''--- a/x'' @ [NL] @ ''+++ b/x'' @ [NL] @
     ''@@ -1,2 +1,3 @@'' @ [NL] @ ''-a'' @ [NL] @ ''+b'' @ [NL] @ ''+c'' @ [NL]"

definition sampleBinaryOnly :: string where
  \<comment> \<open>a binary-file marker with no header and no path markers\<close>
  "sampleBinaryOnly = ''Binary files a/x and b/x differ''"

definition sampleNullPaths :: string where
  \<comment> \<open>both path markers name \<open>/dev/null\<close>\<close>
  "sampleNullPaths = ''--- /dev/null'' @ [NL] @ ''+++ /dev/null''"

definition sampleRepeatedFile :: string where
  \<comment> \<open>two blocks for the same path with different content, as when two diffs of one
      file are concatenated\<close>
  "sampleRepeatedFile =
     ''diff --git a/x b/x'' @ [NL] @ ''--- a/x'' @ [NL] @ ''+++ b/x'' @ [NL] @
     ''@@ -1 +1 @@'' @ [NL] @ ''-a'' @ [NL] @ ''+b'' @ [NL] @
     ''diff --git a/x b/x'' @ [NL] @ ''--- a/x'' @ [NL] @ ''+++ b/x'' @ [NL] @
     ''@@ -1 +1 @@'' @ [NL] @ ''-b'' @ [NL] @ ''+c'' @ [NL]"

definition emptyViewState :: diffViewState where
  \<comment> \<open>nothing viewed, nothing to undo, no card collapsed\<close>
  "emptyViewState =
     \<lparr>viewedFiles = Map.empty, viewedUndoStack = [], collapsedByFileKey = Map.empty\<rparr>"

definition sampleThreeFiles :: string where
  \<comment> \<open>three modified files, in the order 2, 1, 3\<close>
  "sampleThreeFiles =
     ''diff --git a/2 b/2'' @ [NL] @ ''--- a/2'' @ [NL] @ ''+++ b/2'' @ [NL] @
     ''@@ -1 +1 @@'' @ [NL] @ ''-a'' @ [NL] @ ''+x'' @ [NL] @
     ''diff --git a/1 b/1'' @ [NL] @ ''--- a/1'' @ [NL] @ ''+++ b/1'' @ [NL] @
     ''@@ -1 +1 @@'' @ [NL] @ ''-a'' @ [NL] @ ''+y'' @ [NL] @
     ''diff --git a/3 b/3'' @ [NL] @ ''--- a/3'' @ [NL] @ ''+++ b/3'' @ [NL] @
     ''@@ -1 +1 @@'' @ [NL] @ ''-a'' @ [NL] @ ''+z'' @ [NL]"

definition sampleTwoFiles :: string where
  \<comment> \<open>one modified text file and one binary file with no hunk\<close>
  "sampleTwoFiles =
     ''diff --git a/x b/x'' @ [NL] @ ''--- a/x'' @ [NL] @ ''+++ b/x'' @ [NL] @
     ''@@ -1 +1 @@'' @ [NL] @ ''-a'' @ [NL] @ ''+b'' @ [NL] @
     ''diff --git a/i.png b/i.png'' @ [NL] @
     ''Binary files a/i.png and b/i.png differ'' @ [NL]"


definition sampleRenameText :: string where
  \<comment> \<open>the two markers and an added line, no hunk header\<close>
  "sampleRenameText = ''--- a/x'' @ [NL] @ ''+++ b/x'' @ [NL] @ ''+please rename to y''"

definition sampleEarlierMarker :: string where
  \<comment> \<open>a line starting with \<open>+++\<close> and a space before the two markers\<close>
  "sampleEarlierMarker = ''+++ c'' @ [NL] @ ''--- a/x'' @ [NL] @ ''+++ b/x''"

definition sampleHiddenRecord :: string where
  \<comment> \<open>one modified file and one block whose two paths are \<open>/dev/null\<close>\<close>
  "sampleHiddenRecord =
     ''diff --git a/x b/x'' @ [NL] @ ''--- a/x'' @ [NL] @ ''+++ b/x'' @ [NL] @
     ''@@ -1 +1 @@'' @ [NL] @ ''-a'' @ [NL] @ ''+b'' @ [NL] @
     ''diff --git a/n b/n'' @ [NL] @ ''--- /dev/null'' @ [NL] @ ''+++ /dev/null'' @ [NL] @
     ''@@ -0,0 +1 @@'' @ [NL] @ ''+z'' @ [NL]"

definition sampleBinaryBetween :: string where
  \<comment> \<open>a binary file with no path markers between two modified files\<close>
  "sampleBinaryBetween =
     ''diff --git a/x b/x'' @ [NL] @ ''--- a/x'' @ [NL] @ ''+++ b/x'' @ [NL] @
     ''@@ -1 +1 @@'' @ [NL] @ ''-a'' @ [NL] @ ''+b'' @ [NL] @
     ''diff --git a/i.png b/i.png'' @ [NL] @
     ''Binary files a/i.png and b/i.png differ'' @ [NL] @
     ''diff --git a/y b/y'' @ [NL] @ ''--- a/y'' @ [NL] @ ''+++ b/y'' @ [NL] @
     ''@@ -1 +1 @@'' @ [NL] @ ''-a'' @ [NL] @ ''+c'' @ [NL]"

section \<open>Properties of the splitter\<close>

lemma pushCurrent_length: "length (fst (pushCurrent st)) \<le> Suc (length (fst st))"
  by (simp add: pushCurrent_def Let_def)

lemma splitLoop_length:
  "length (fst (splitLoop ls st)) \<le>
     length (fst st) + length (filter (\<lambda>l. startsWith l ''diff --git '') ls)"
proof (induction ls arbitrary: st)
  case Nil
  show ?case by simp
next
  case (Cons l ls)
  show ?case
    using Cons.IH [of "(fst (pushCurrent st), snd (pushCurrent st) @ [l])"]
          Cons.IH [of "(fst st, snd st @ [l])"] pushCurrent_length [of st]
    by (auto simp: Let_def)
qed

lemma diffBlocks_length:
  "length (diffBlocks input) \<le>
     Suc (length (filter (\<lambda>l. startsWith l ''diff --git '') (splitLines (normalizeCRLF input))))"
  using splitLoop_length [of "splitLines (normalizeCRLF input)" "([], [])"]
        pushCurrent_length [of "splitLoop (splitLines (normalizeCRLF input)) ([], [])"]
  by (simp add: diffBlocks_def)

subsection \<open>The run-time splitter on strings\<close>

lemma callMethod_string: "callMethod (JSString s) m = Inr (m s)"
  by (simp add: callMethod_def)

lemma elementText_strings: "map (elementText \<circ> JSString) xs = xs"
  by (induction xs) (simp_all add: elementText_def)

lemma pushCurrentJS_strings:
  "pushCurrentJS (map JSString bs, map JSString cur) =
     (map JSString (fst (pushCurrent (bs, cur))), map JSString (snd (pushCurrent (bs, cur))))"
  by (simp add: pushCurrentJS_def pushCurrent_def Let_def elementText_strings)

lemma splitLoopJS_strings:
  "splitLoopJS (map JSString ls) (map JSString bs, map JSString cur) =
     Inr (map JSString (fst (splitLoop ls (bs, cur))), map JSString (snd (splitLoop ls (bs, cur))))"
proof (induction ls arbitrary: bs cur)
  case Nil
  show ?case by simp
next
  case (Cons l ls)
  show ?case
  proof (cases "startsWith l ''diff --git '' \<and> length cur > 0")
    case True
    then show ?thesis
      using Cons.IH [of "fst (pushCurrent (bs, cur))" "snd (pushCurrent (bs, cur)) @ [l]"]
      by (simp add: callMethod_string pushCurrentJS_strings Let_def)
  next
    case False
    then show ?thesis
      using Cons.IH [of bs "cur @ [l]"]
      by (auto simp: callMethod_string Let_def)
  qed
qed

lemma scanLoopJS_strings: "scanLoopJS s (map JSString ls) = Inr (foldl scanLine s ls)"
  by (induction ls arbitrary: s) (simp_all add: callMethod_string)

lemma findIndexFromJS_strings:
  "findIndexFromJS P (map JSString xs) n = Inr (findIndexFrom P xs n)"
  by (induction xs arbitrary: n) (simp_all add: callMethod_string)

lemma hasHunkLoopJS_strings: "hasHunkLoopJS (map JSString xs) i = hasHunkLoop xs i"
proof (induction xs i rule: hasHunkLoop.induct)
  case (1 lines i)
  show ?case
  proof (cases "i < length lines")
    case True
    show ?thesis
    proof (cases "hunkHeaderRegex (lines ! i)")
      case h: True
      then show ?thesis
        using True
        by (simp add: hasHunkLoopJS.simps [of "map JSString lines" i]
              hasHunkLoop.simps [of lines i] elementAt_def toStringJS_def)
    next
      case h: False
      then show ?thesis
        using True "1.IH"
        by (simp add: hasHunkLoopJS.simps [of "map JSString lines" i]
              hasHunkLoop.simps [of lines i] elementAt_def toStringJS_def)
    qed
  next
    case False
    then show ?thesis
      by (simp add: hasHunkLoopJS.simps [of "map JSString lines" i]
            hasHunkLoop.simps [of lines i])
  qed
qed

lemma validateDiffHunkJS_strings: "validateDiffHunkJS (JSString b) = Inr (validateDiffHunk b)"
  by (simp add: validateDiffHunkJS_def validateDiffHunk_def callMethod_string strSplit_def
        findIndexFromJS_strings findIndex_def hasHunkLoopJS_strings Let_def)

lemma parseBlockJS_strings: "parseBlockJS (JSString b) i = Inr (parseBlock b i)"
  by (simp add: parseBlockJS_def parseBlock_def callMethod_string strSplit_def
        scanLoopJS_strings validateDiffHunkJS_strings Let_def)

lemma mapBlocksJS_strings:
  "mapBlocksJS (map JSString bs) i =
     Inr (map (\<lambda>(index, blockText). parseBlock blockText index) (enumerate i bs))"
  by (induction bs arbitrary: i) (simp_all add: parseBlockJS_strings)

text \<open>
  On a string the run-time splitter meets no method call on \<open>null\<close> or \<open>undefined\<close>: every
  array it reads holds strings only, and it returns what the splitter over strings returns.
\<close>

lemma splitUnifiedDiffByFileJS_string: "splitUnifiedDiffByFileJS (JSString s) = Inr (splitUnifiedDiffByFile s)"
proof -
  have "splitLoopJS (strSplit (normalizeCRLF s)) ([], []) =
          Inr (map JSString (fst (splitLoop (splitLines (normalizeCRLF s)) ([], []))),
               map JSString (snd (splitLoop (splitLines (normalizeCRLF s)) ([], []))))"
    using splitLoopJS_strings [of "splitLines (normalizeCRLF s)" "[]" "[]"]
    by (simp add: strSplit_def)
  then show ?thesis
    by (simp add: splitUnifiedDiffByFileJS_def callMethod_string pushCurrentJS_strings mapBlocksJS_strings
          splitUnifiedDiffByFile_def diffBlocks_def)
qed

lemma validateDiffHunkJS_returns: "\<exists>r. validateDiffHunkJS v = Inr r"
  by (cases v) (simp_all add: validateDiffHunkJS_strings, simp_all add: validateDiffHunkJS_def)

lemma splitUnifiedDiffByFile_empty: "splitUnifiedDiffByFile [] = []"
  by code_simp

lemma splitUnifiedDiffByFile_length:
  "length (splitUnifiedDiffByFile input) \<le>
     Suc (length (filter (\<lambda>l. startsWith l ''diff --git '')
                    (splitLines (normalizeCRLF input))))"
  using diffBlocks_length [of input] by (simp add: splitUnifiedDiffByFile_def)

text \<open>
  C7. Called with a string, the run-time splitter raises nothing and returns a list of
  records: for every string \<open>s\<close> its result is the normal return of the records
  \<open>splitUnifiedDiffByFile s\<close>, and for the empty string the normal return of no record. It
  raises exactly when its argument is \<open>null\<close> or \<open>undefined\<close>, never for a string. The
  memo \<open>allFileDiffs\<close> likewise yields no record for the empty diff.
\<close>

theorem splitUnifiedDiffByFile_never_throws:
  "(\<exists>records. splitUnifiedDiffByFileJS (JSString s) = Inr records) \<and>
   splitUnifiedDiffByFileJS (JSString s) = Inr (splitUnifiedDiffByFile s) \<and>
   splitUnifiedDiffByFileJS (JSString []) = Inr [] \<and>
   splitUnifiedDiffByFile [] = [] \<and>
   (\<exists>e. splitUnifiedDiffByFileJS v = Inl e) = (v = JSNull \<or> v = JSUndefined) \<and>
   allFileDiffs None (JSString []) = []"
proof (intro conjI)
  show "\<exists>records. splitUnifiedDiffByFileJS (JSString s) = Inr records"
    by (simp add: splitUnifiedDiffByFileJS_string)
  show "splitUnifiedDiffByFileJS (JSString s) = Inr (splitUnifiedDiffByFile s)"
    by (rule splitUnifiedDiffByFileJS_string)
  show "splitUnifiedDiffByFileJS (JSString []) = Inr []"
    by (simp add: splitUnifiedDiffByFileJS_string splitUnifiedDiffByFile_empty)
  show "splitUnifiedDiffByFile [] = []"
    by (rule splitUnifiedDiffByFile_empty)
  show "(\<exists>e. splitUnifiedDiffByFileJS v = Inl e) = (v = JSNull \<or> v = JSUndefined)"
  proof (cases v)
    case (JSString x)
    then show ?thesis by (simp add: splitUnifiedDiffByFileJS_string)
  next
    case JSNull
    then show ?thesis by (simp add: splitUnifiedDiffByFileJS_def callMethod_def)
  next
    case JSUndefined
    then show ?thesis by (simp add: splitUnifiedDiffByFileJS_def callMethod_def)
  qed
  show "allFileDiffs None (JSString []) = []"
    by (simp add: allFileDiffs_def)
qed

text \<open>
  The block made of the two markers \<open>--- a/x\<close> and \<open>+++ b/x\<close> alone is rejected, and the
  splitter returns for it one record that is not binary and not valid; with the line
  \<open>@@ -1,1 +1,1 @@\<close> appended the validator accepts the block and the record is valid.
\<close>

lemma validateDiffHunk_two_markers:
  "valid (validateDiffHunk (''--- a/x'' @ [NL] @ ''+++ b/x'' @ [NL])) = False \<and>
   valid (validateDiffHunk
            (''--- a/x'' @ [NL] @ ''+++ b/x'' @ [NL] @ ''@@ -1,1 +1,1 @@'')) = True \<and>
   map (\<lambda>r. (isBinary r, isValid r))
     (splitUnifiedDiffByFile (''--- a/x'' @ [NL] @ ''+++ b/x'' @ [NL]))
     = [(False, Some False)] \<and>
   map (\<lambda>r. (isBinary r, isValid r))
     (splitUnifiedDiffByFile (''--- a/x'' @ [NL] @ ''+++ b/x'' @ [NL] @ ''@@ -1,1 +1,1 @@''))
     = [(False, Some True)]"
  by code_simp

section \<open>Properties of the viewed state\<close>

lemmas hash_eval = hashString_def toStringRadix.simps shiftLeft5_def toInt32_def digitChar_def

lemma isFileViewed_iff:
  "isFileViewed vf k t = (\<exists>st. vf k = Some st \<and> viewed st \<and> contentHash st = hashString t)"
  by (auto simp: isFileViewed_def split: option.splits)

lemma handleToggleViewed_viewedFiles:
  "viewedFiles (fst (handleToggleViewed allFiles sel k t s)) =
     (viewedFiles s)(k \<mapsto> \<lparr>viewed = \<not> isFileViewed (viewedFiles s) k t,
                              contentHash = hashString t\<rparr>)"
  by (simp add: handleToggleViewed_def Let_def split: option.splits)

lemma invalidate_fold:
  "foldl (\<lambda>updated k. updated(k \<mapsto> \<lparr>viewed = False, contentHash = []\<rparr>)) vf ks k =
     (if k \<in> set ks then Some \<lparr>viewed = False, contentHash = []\<rparr> else vf k)"
  by (induction ks arbitrary: vf) auto

lemma invalidateStale_lookup:
  "invalidateStale files vf k =
     (if k \<in> key ` {f \<in> set files. isStale vf f}
      then Some \<lparr>viewed = False, contentHash = []\<rparr> else vf k)"
  by (auto simp: invalidateStale_def Let_def invalidate_fold filter_empty_conv)

lemma invalidateStale_not_viewed:
  "isFileViewed (invalidateStale files vf) k t \<Longrightarrow> isFileViewed vf k t"
  by (auto simp: isFileViewed_def invalidateStale_lookup split: if_splits option.splits)

text \<open>
  C2. \<open>isFileViewed\<close> answers true only if the store holds a state for the key whose
  \<open>viewed\<close> flag is set and whose content hash is the hash of the text asked about. After
  an unviewed file is marked viewed under a text \<open>t1\<close>, a query with a text \<open>t2\<close> of a
  different hash is false, stays false when the stale-invalidation effect runs, and is true
  again once the file is marked viewed under \<open>t2\<close>.
\<close>

theorem isFileViewed_staleness:
  "(isFileViewed vf k t \<longrightarrow>
      (\<exists>st. vf k = Some st \<and> viewed st \<and> contentHash st = hashString t)) \<and>
   (\<not> isFileViewed (viewedFiles s) k t1 \<and> hashString t2 \<noteq> hashString t1 \<longrightarrow>
      (let s1 = fst (handleToggleViewed allFiles sel k t1 s)
       in isFileViewed (viewedFiles s1) k t1 \<and>
          \<not> isFileViewed (viewedFiles s1) k t2 \<and>
          \<not> isFileViewed (invalidateStale files (viewedFiles s1)) k t2 \<and>
          isFileViewed (viewedFiles (fst (handleToggleViewed allFiles sel k t2 s1))) k t2))"
proof (intro conjI impI)
  assume "isFileViewed vf k t"
  then show "\<exists>st. vf k = Some st \<and> viewed st \<and> contentHash st = hashString t"
    by (simp add: isFileViewed_iff)
next
  assume h: "\<not> isFileViewed (viewedFiles s) k t1 \<and> hashString t2 \<noteq> hashString t1"
  define s1 where "s1 = fst (handleToggleViewed allFiles sel k t1 s)"
  have vf1: "viewedFiles s1 k = Some \<lparr>viewed = True, contentHash = hashString t1\<rparr>"
    using h by (simp add: s1_def handleToggleViewed_viewedFiles)
  have a: "isFileViewed (viewedFiles s1) k t1"
    using vf1 by (simp add: isFileViewed_def)
  have b: "\<not> isFileViewed (viewedFiles s1) k t2"
    using vf1 h by (auto simp: isFileViewed_def)
  have c: "\<not> isFileViewed (invalidateStale files (viewedFiles s1)) k t2"
    using b invalidateStale_not_viewed by blast
  have d: "isFileViewed (viewedFiles (fst (handleToggleViewed allFiles sel k t2 s1))) k t2"
    using b by (simp add: handleToggleViewed_viewedFiles isFileViewed_def)
  show "let s1 = fst (handleToggleViewed allFiles sel k t1 s)
       in isFileViewed (viewedFiles s1) k t1 \<and>
          \<not> isFileViewed (viewedFiles s1) k t2 \<and>
          \<not> isFileViewed (invalidateStale files (viewedFiles s1)) k t2 \<and>
          isFileViewed (viewedFiles (fst (handleToggleViewed allFiles sel k t2 s1))) k t2"
    using a b c d by (simp add: s1_def Let_def)
qed

lemma hash_a_b: "hashString ''b'' \<noteq> hashString ''a''"
  by (simp add: hash_eval)

theorem isFileViewed_staleness_witness:
  "isFileViewed [''x->x'' \<mapsto> \<lparr>viewed = True, contentHash = hashString ''a''\<rparr>] ''x->x'' ''a'' \<and>
   (\<exists>st. [''x->x'' \<mapsto> \<lparr>viewed = True, contentHash = hashString ''a''\<rparr>] ''x->x'' = Some st \<and>
      viewed st \<and> contentHash st = hashString ''a'') \<and>
   \<not> isFileViewed (viewedFiles \<lparr>viewedFiles = Map.empty, viewedUndoStack = [],
                       collapsedByFileKey = Map.empty\<rparr>) ''x->x'' ''a'' \<and>
   hashString ''b'' \<noteq> hashString ''a'' \<and>
   (let s1 = fst (handleToggleViewed [] False ''x->x'' ''a''
                    \<lparr>viewedFiles = Map.empty, viewedUndoStack = [],
                       collapsedByFileKey = Map.empty\<rparr>)
    in isFileViewed (viewedFiles s1) ''x->x'' ''a'' \<and>
       \<not> isFileViewed (viewedFiles s1) ''x->x'' ''b'' \<and>
       \<not> isFileViewed (invalidateStale [] (viewedFiles s1)) ''x->x'' ''b'' \<and>
       isFileViewed (viewedFiles (fst (handleToggleViewed [] False ''x->x'' ''b'' s1))) ''x->x'' ''b'')"
proof -
  have v: "isFileViewed [''x->x'' \<mapsto> \<lparr>viewed = True, contentHash = hashString ''a''\<rparr>] ''x->x'' ''a''"
    by (simp add: isFileViewed_def)
  have n: "\<not> isFileViewed (viewedFiles \<lparr>viewedFiles = Map.empty, viewedUndoStack = [],
                       collapsedByFileKey = Map.empty\<rparr>) ''x->x'' ''a''"
    by (simp add: isFileViewed_def)
  show ?thesis
    using v n hash_a_b
      isFileViewed_staleness [of "[''x->x'' \<mapsto> \<lparr>viewed = True, contentHash = hashString ''a''\<rparr>]"
        "''x->x''" "''a''"
        "\<lparr>viewedFiles = Map.empty, viewedUndoStack = [], collapsedByFileKey = Map.empty\<rparr>"
        "''a''" "''b''" "[]" False "[]"]
    by blast
qed

lemma handleToggleViewed_stack:
  "viewedUndoStack (fst (handleToggleViewed allFiles sel k t s)) =
     (let pushed = viewedUndoStack s @ [\<lparr>undoFileKey = k, previousState = viewedFiles s k\<rparr>]
      in if length pushed > 50 then tl pushed else pushed)"
  by (simp add: handleToggleViewed_def Let_def split: option.splits)

lemma handleToggleViewed_stack_last:
  "viewedUndoStack (fst (handleToggleViewed allFiles sel k t s)) \<noteq> [] \<and>
   last (viewedUndoStack (fst (handleToggleViewed allFiles sel k t s))) =
     \<lparr>undoFileKey = k, previousState = viewedFiles s k\<rparr>"
proof (cases "viewedUndoStack s")
  case Nil
  then show ?thesis by (simp add: handleToggleViewed_stack)
next
  case (Cons e es)
  then show ?thesis by (simp add: handleToggleViewed_stack Let_def)
qed

lemma undoLastViewed_nonempty:
  "viewedUndoStack s \<noteq> [] \<Longrightarrow>
     fst (undoLastViewed allFiles sel s) = True \<and>
     viewedFiles (fst (snd (undoLastViewed allFiles sel s))) =
       (case previousState (last (viewedUndoStack s)) of
          None \<Rightarrow> (viewedFiles s)(undoFileKey (last (viewedUndoStack s)) := None)
        | Some prev \<Rightarrow> (viewedFiles s)(undoFileKey (last (viewedUndoStack s)) \<mapsto> prev))"
  by (simp add: undoLastViewed_def Let_def split: option.splits)

lemma undo_after_toggle:
  "fst (undoLastViewed allFiles' sel' (fst (handleToggleViewed allFiles sel k t s))) = True \<and>
   viewedFiles (fst (snd (undoLastViewed allFiles' sel'
                     (fst (handleToggleViewed allFiles sel k t s))))) = viewedFiles s"
proof -
  let ?s1 = "fst (handleToggleViewed allFiles sel k t s)"
  have ne: "viewedUndoStack ?s1 \<noteq> []"
    and la: "last (viewedUndoStack ?s1) = \<lparr>undoFileKey = k, previousState = viewedFiles s k\<rparr>"
    using handleToggleViewed_stack_last [of allFiles sel k t s] by simp_all
  have "viewedFiles (fst (snd (undoLastViewed allFiles' sel' ?s1))) = viewedFiles s"
    using undoLastViewed_nonempty [OF ne, of allFiles' sel']
    by (auto simp: la handleToggleViewed_viewedFiles split: option.splits)
  then show ?thesis
    using undoLastViewed_nonempty [OF ne, of allFiles' sel'] by simp
qed

text \<open>
  C6. Undoing right after a toggle (in particular after marking a file viewed) returns true
  and puts the whole store back as it was before the toggle, so every query about the file
  answers as before the mark: false, or true under the text of the earlier mark. Undo on an
  empty stack returns false and changes nothing. A stack of at most 50 entries has at most
  50 entries after a toggle; at 50 entries the oldest entry, at the head, is dropped and the
  new entry is put at the end.
\<close>

theorem undoLastViewed_restores:
  "(let r = undoLastViewed allFiles' sel' (fst (handleToggleViewed allFiles sel k t s))
    in fst r = True \<and> viewedFiles (fst (snd r)) = viewedFiles s \<and>
       (\<forall>t'. isFileViewed (viewedFiles (fst (snd r))) k t' = isFileViewed (viewedFiles s) k t')) \<and>
   (viewedUndoStack s0 = [] \<longrightarrow> undoLastViewed allFiles0 sel0 s0 = (False, s0, None)) \<and>
   (length (viewedUndoStack s2) \<le> 50 \<longrightarrow>
      (let st = viewedUndoStack (fst (handleToggleViewed allFiles2 sel2 k2 t2 s2));
           e = \<lparr>undoFileKey = k2, previousState = viewedFiles s2 k2\<rparr>
       in length st \<le> 50 \<and>
          st = (if length (viewedUndoStack s2) = 50 then tl (viewedUndoStack s2) @ [e]
                else viewedUndoStack s2 @ [e])))"
proof (intro conjI impI)
  show "let r = undoLastViewed allFiles' sel' (fst (handleToggleViewed allFiles sel k t s))
    in fst r = True \<and> viewedFiles (fst (snd r)) = viewedFiles s \<and>
       (\<forall>t'. isFileViewed (viewedFiles (fst (snd r))) k t' = isFileViewed (viewedFiles s) k t')"
    using undo_after_toggle [of allFiles' sel' allFiles sel k t s] by (simp add: Let_def)
next
  assume "viewedUndoStack s0 = []"
  then show "undoLastViewed allFiles0 sel0 s0 = (False, s0, None)"
    by (simp add: undoLastViewed_def)
next
  assume b: "length (viewedUndoStack s2) \<le> 50"
  show "let st = viewedUndoStack (fst (handleToggleViewed allFiles2 sel2 k2 t2 s2));
           e = \<lparr>undoFileKey = k2, previousState = viewedFiles s2 k2\<rparr>
       in length st \<le> 50 \<and>
          st = (if length (viewedUndoStack s2) = 50 then tl (viewedUndoStack s2) @ [e]
                else viewedUndoStack s2 @ [e])"
  proof (cases "viewedUndoStack s2")
    case Nil
    then show ?thesis by (simp add: handleToggleViewed_stack)
  next
    case (Cons e es)
    then show ?thesis using b by (auto simp: handleToggleViewed_stack Let_def)
  qed
qed

theorem undoLastViewed_restores_witness:
  "viewedUndoStack \<lparr>viewedFiles = Map.empty, viewedUndoStack = [],
                     collapsedByFileKey = Map.empty\<rparr> = [] \<and>
   undoLastViewed [] True \<lparr>viewedFiles = Map.empty, viewedUndoStack = [],
                            collapsedByFileKey = Map.empty\<rparr>
     = (False, \<lparr>viewedFiles = Map.empty, viewedUndoStack = [],
                 collapsedByFileKey = Map.empty\<rparr>, None) \<and>
   length (viewedUndoStack
      \<lparr>viewedFiles = Map.empty,
        viewedUndoStack = replicate 50 \<lparr>undoFileKey = ''a->a'', previousState = None\<rparr>,
        collapsedByFileKey = Map.empty\<rparr>) \<le> 50 \<and>
   viewedUndoStack (fst (handleToggleViewed [] True ''b->b'' ''+x''
      \<lparr>viewedFiles = Map.empty,
        viewedUndoStack = replicate 50 \<lparr>undoFileKey = ''a->a'', previousState = None\<rparr>,
        collapsedByFileKey = Map.empty\<rparr>))
     = replicate 49 \<lparr>undoFileKey = ''a->a'', previousState = None\<rparr> @
         [\<lparr>undoFileKey = ''b->b'', previousState = None\<rparr>]"
proof -
  let ?e = "\<lparr>undoFileKey = ''a->a'', previousState = None\<rparr>"
  let ?s0 = "\<lparr>viewedFiles = Map.empty, viewedUndoStack = [], collapsedByFileKey = Map.empty\<rparr>"
  let ?s2 = "\<lparr>viewedFiles = Map.empty, viewedUndoStack = replicate 50 ?e,
               collapsedByFileKey = Map.empty\<rparr>"
  have r: "replicate 50 ?e = ?e # replicate 49 ?e"
    by (simp add: numeral_eq_Suc)
  have h0: "viewedUndoStack ?s0 = []" by simp
  have h2: "length (viewedUndoStack ?s2) \<le> 50" by simp
  have t: "tl (viewedUndoStack ?s2) = replicate 49 ?e"
    by (simp add: r)
  show ?thesis
    using h0 h2 t
      undoLastViewed_restores [of "[]" True "[]" True "''b->b''" "''+x''" ?s2 ?s0 "[]" True ?s2
        "[]" True "''b->b''" "''+x''"]
    by (simp add: Let_def)
qed

section \<open>Properties of the parsed records\<close>

lemma scanLine_additions:
  "scanAdditions (scanLine s l) =
     scanAdditions s + (if startsWith l ''+'' \<and> \<not> startsWith l ''+++ '' then 1 else 0)"
  by (simp add: scanLine_def Let_def)

lemma plus_not_minus: "startsWith l ''+'' \<Longrightarrow> \<not> startsWith l ''-''"
  by (cases l) (auto simp: startsWith_def)

lemma scanLine_deletions:
  "scanDeletions (scanLine s l) =
     scanDeletions s + (if startsWith l ''-'' \<and> \<not> startsWith l ''--- '' then 1 else 0)"
  using plus_not_minus [of l] by (auto simp: scanLine_def Let_def)

lemma scan_additions:
  "scanAdditions (foldl scanLine s ls) =
     scanAdditions s +
       length (filter (\<lambda>l. startsWith l ''+'' \<and> \<not> startsWith l ''+++ '') ls)"
  by (induction ls arbitrary: s) (simp_all add: scanLine_additions)

lemma scan_deletions:
  "scanDeletions (foldl scanLine s ls) =
     scanDeletions s +
       length (filter (\<lambda>l. startsWith l ''-'' \<and> \<not> startsWith l ''--- '') ls)"
  by (induction ls arbitrary: s) (simp_all add: scanLine_deletions)

lemma parseBlock_fields:
  "diffText (parseBlock b i) = b"
  "additions (parseBlock b i) = scanAdditions (foldl scanLine scanInit (splitLines b))"
  "deletions (parseBlock b i) = scanDeletions (foldl scanLine scanInit (splitLines b))"
  "isBinary (parseBlock b i) = scanIsBinary (foldl scanLine scanInit (splitLines b))"
  "oldPath (parseBlock b i) = scanOldPath (foldl scanLine scanInit (splitLines b))"
  "newPath (parseBlock b i) = scanNewPath (foldl scanLine scanInit (splitLines b))"
  by (simp_all add: parseBlock_def Let_def)

lemma splitUnifiedDiffByFile_records:
  "r \<in> set (splitUnifiedDiffByFile input) \<Longrightarrow>
     \<exists>i b. b \<in> set (diffBlocks input) \<and> r = parseBlock b i"
  by (auto simp: splitUnifiedDiffByFile_def enumerate_eq_zip dest: set_zip_rightD)

text \<open>
  What the counting loop computes: \<open>additions\<close> is the number of lines of the block that
  start with \<open>+\<close> and do not start with \<open>+++\<close> and a space, \<open>deletions\<close> the number of
  lines that start with \<open>-\<close> and do not start with \<open>---\<close> and a space.
\<close>

lemma parseBlock_counts_by_prefix:
  "additions (parseBlock blockText index) =
     length (filter (\<lambda>l. startsWith l ''+'' \<and> \<not> startsWith l ''+++ '')
               (splitLines blockText)) \<and>
   deletions (parseBlock blockText index) =
     length (filter (\<lambda>l. startsWith l ''-'' \<and> \<not> startsWith l ''--- '')
               (splitLines blockText)) \<and>
   (\<forall>r \<in> set (splitUnifiedDiffByFile input).
      additions r =
        length (filter (\<lambda>l. startsWith l ''+'' \<and> \<not> startsWith l ''+++ '')
                  (splitLines (diffText r))) \<and>
      deletions r =
        length (filter (\<lambda>l. startsWith l ''-'' \<and> \<not> startsWith l ''--- '')
                  (splitLines (diffText r))))"
proof -
  have one: "additions (parseBlock b i) =
       length (filter (\<lambda>l. startsWith l ''+'' \<and> \<not> startsWith l ''+++ '') (splitLines b)) \<and>
     deletions (parseBlock b i) =
       length (filter (\<lambda>l. startsWith l ''-'' \<and> \<not> startsWith l ''--- '') (splitLines b))"
    for b i
    by (simp add: parseBlock_fields scan_additions scan_deletions scanInit_def)
  show ?thesis
  proof (intro conjI ballI)
    fix r assume "r \<in> set (splitUnifiedDiffByFile input)"
    then obtain i b where r: "r = parseBlock b i"
      using splitUnifiedDiffByFile_records by blast
    show "additions r =
        length (filter (\<lambda>l. startsWith l ''+'' \<and> \<not> startsWith l ''+++ '')
                  (splitLines (diffText r)))"
      using one [of b i] by (simp add: r parseBlock_fields(1))
    show "deletions r =
        length (filter (\<lambda>l. startsWith l ''-'' \<and> \<not> startsWith l ''--- '')
                  (splitLines (diffText r)))"
      using one [of b i] by (simp add: r parseBlock_fields(1))
  qed (simp_all add: one)
qed

lemma split_modify_example:
  "splitUnifiedDiffByFile
     sampleModifyDiff
   = [\<lparr>key = ''x->x'', oldPath = ''x'', newPath = ''x'',
       diffText = ''diff --git a/x b/x'' @ [NL] @ ''--- a/x'' @ [NL] @ ''+++ b/x'' @ [NL] @
                  ''@@ -1,2 +1,3 @@'' @ [NL] @ ''-a'' @ [NL] @ ''+b'' @ [NL] @ ''+c'',
       isBinary = False, additions = 2, deletions = 1, isValid = Some True\<rparr>]"
  by code_simp

section \<open>Properties of the displayed list\<close>

lemma fileDiffs_filter:
  "\<exists>P. fileDiffs allFiles ef = filter P (filter isDisplayable allFiles)"
proof (cases "length (case ef of None \<Rightarrow> []
                       | Some ps \<Rightarrow> filter (\<lambda>p. p \<noteq> [] \<and> p \<noteq> ''/dev/null'') ps) = 0")
  case True
  then have "fileDiffs allFiles ef = filter (\<lambda>f. True) (filter isDisplayable allFiles)"
    by (simp add: fileDiffs_def Let_def)
  then show ?thesis by blast
next
  case False
  then show ?thesis by (auto simp: fileDiffs_def Let_def)
qed

lemma fileDiffs_subseq: "subseq (fileDiffs allFiles ef) allFiles"
proof -
  obtain P where "fileDiffs allFiles ef = filter P (filter isDisplayable allFiles)"
    using fileDiffs_filter by blast
  then show ?thesis
    by (metis subseq_filter_left subseq_order.order_trans)
qed

lemma fileDiffs_displayable: "f \<in> set (fileDiffs allFiles ef) \<Longrightarrow> isDisplayable f"
proof -
  assume a: "f \<in> set (fileDiffs allFiles ef)"
  obtain P where "fileDiffs allFiles ef = filter P (filter isDisplayable allFiles)"
    using fileDiffs_filter by blast
  with a show ?thesis by simp
qed

lemma fileDiffs_none_displayable:
  "filter isDisplayable allFiles = [] \<Longrightarrow> fileDiffs allFiles ef = []"
  using fileDiffs_filter [of allFiles ef] by auto

lemma isDisplayable_iff:
  "isDisplayable f =
     (\<not> (startsWith (key f) ''file-'' \<and> oldPath f = [] \<and> newPath f = []) \<and>
      \<not> (oldPath f = ''/dev/null'' \<and> newPath f = ''/dev/null''))"
  by (simp add: isDisplayable_def)

lemma split_binary_example:
  "splitUnifiedDiffByFile sampleBinaryOnly
   = [\<lparr>key = ''file-0'', oldPath = [], newPath = [],
       diffText = ''Binary files a/x and b/x differ'',
       isBinary = True, additions = 0, deletions = 0, isValid = Some True\<rparr>]"
  by code_simp

lemma split_null_example:
  "splitUnifiedDiffByFile sampleNullPaths
   = [\<lparr>key = ''/dev/null->/dev/null'', oldPath = ''/dev/null'', newPath = ''/dev/null'',
       diffText = ''--- /dev/null'' @ [NL] @ ''+++ /dev/null'',
       isBinary = False, additions = 0, deletions = 0, isValid = Some False\<rparr>]"
  by code_simp

lemma not_displayable_binary:
  "filter isDisplayable (splitUnifiedDiffByFile sampleBinaryOnly) = []"
  by (simp add: split_binary_example isDisplayable_def startsWith_def)

lemma not_displayable_null:
  "filter isDisplayable (splitUnifiedDiffByFile sampleNullPaths) = []"
  by (simp add: split_null_example isDisplayable_def startsWith_def)

section \<open>Properties of the task-identifier comparator\<close>

lemma digit_not_space: "isDigit c \<Longrightarrow> \<not> isWhiteSpace c"
  by (auto simp: isDigit_def isWhiteSpace_def)

lemma digit_not_sign: "isDigit c \<Longrightarrow> c \<noteq> CHR ''+'' \<and> c \<noteq> CHR ''-''"
  by (auto simp: isDigit_def)

lemma sign_not_space: "\<not> isWhiteSpace CHR ''+''" "\<not> isWhiteSpace CHR ''-''"
  by (simp_all add: isWhiteSpace_def)

lemma takeWhile_digits:
  assumes "list_all isDigit ds" "rest = [] \<or> \<not> isDigit (hd rest)"
  shows "takeWhile isDigit (ds @ rest) = ds"
proof -
  have "takeWhile isDigit rest = []"
    using assms(2) by (cases rest) auto
  then show ?thesis
    using assms(1) by (simp add: list_all_iff)
qed

lemma parseInt10_leading:
  assumes "leadingInteger ws sg ds rest"
  shows "parseInt10 (ws @ sg @ ds @ rest) = Some (signValue sg * int (decimalValue ds))"
proof -
  from assms have w: "list_all isWhiteSpace ws" and s: "sg = [] \<or> sg = ''+'' \<or> sg = ''-''"
    and d: "ds \<noteq> []" "list_all isDigit ds" and r: "rest = [] \<or> \<not> isDigit (hd rest)"
    by (simp_all add: leadingInteger_def)
  obtain c cs where ds: "ds = c # cs" using d(1) by (cases ds) auto
  have c: "isDigit c" using d(2) ds by simp
  have tk: "takeWhile isDigit (ds @ rest) = ds"
    using takeWhile_digits [OF d(2) r] .
  have dw: "dropWhile isWhiteSpace (ws @ sg @ ds @ rest) = sg @ ds @ rest"
  proof -
    have "dropWhile isWhiteSpace (ws @ sg @ ds @ rest) = dropWhile isWhiteSpace (sg @ ds @ rest)"
      using w by (simp add: list_all_iff)
    also have "\<dots> = sg @ ds @ rest"
      using s c digit_not_space [OF c] sign_not_space by (auto simp: ds)
    finally show ?thesis .
  qed
  have hd_ds: "hd ds = c" by (simp add: ds)
  have pu: "parseInt10 (ws @ sg @ ds @ rest) =
      (let S = sg @ ds @ rest;
           sign = (if S \<noteq> [] \<and> hd S = CHR ''-'' then - 1 else 1 :: int);
           S1 = (if S \<noteq> [] \<and> (hd S = CHR ''+'' \<or> hd S = CHR ''-'') then tl S else S);
           Z = takeWhile isDigit S1
       in if Z = [] then None else Some (sign * int (decimalValue Z)))"
    by (simp only: parseInt10_def dw)
  from s show ?thesis
  proof (elim disjE)
    assume e: "sg = []"
    have "parseInt10 (ws @ sg @ ds @ rest) = Some (int (decimalValue ds))"
      by (subst pu) (use tk digit_not_sign [OF c] d(1) hd_ds in \<open>simp add: e Let_def\<close>)
    then show ?thesis by (simp add: e signValue_def)
  next
    assume e: "sg = ''+''"
    have "parseInt10 (ws @ sg @ ds @ rest) = Some (int (decimalValue ds))"
      by (subst pu) (use tk d(1) in \<open>simp add: e Let_def\<close>)
    then show ?thesis by (simp add: e signValue_def)
  next
    assume e: "sg = ''-''"
    have "parseInt10 (ws @ sg @ ds @ rest) = Some (- int (decimalValue ds))"
      by (subst pu) (use tk d(1) in \<open>simp add: e Let_def\<close>)
    then show ?thesis by (simp add: e signValue_def)
  qed
qed

lemma parseInt10_Some_decompose:
  assumes "parseInt10 a = Some n"
  shows "\<exists>ws sg ds rest. leadingInteger ws sg ds rest \<and> a = ws @ sg @ ds @ rest"
proof -
  define S where "S = dropWhile isWhiteSpace a"
  define sg where "sg = (if S \<noteq> [] \<and> (hd S = CHR ''+'' \<or> hd S = CHR ''-'') then [hd S] else [])"
  define S1 where "S1 = (if S \<noteq> [] \<and> (hd S = CHR ''+'' \<or> hd S = CHR ''-'') then tl S else S)"
  have a: "a = takeWhile isWhiteSpace a @ S" by (simp add: S_def)
  have S: "S = sg @ S1" by (cases S) (auto simp: sg_def S1_def)
  have z: "takeWhile isDigit S1 \<noteq> []"
    using assms by (auto simp: parseInt10_def Let_def S_def S1_def split: if_splits)
  have S1: "S1 = takeWhile isDigit S1 @ dropWhile isDigit S1" by simp
  have li: "leadingInteger (takeWhile isWhiteSpace a) sg (takeWhile isDigit S1) (dropWhile isDigit S1)"
    unfolding leadingInteger_def
  proof (intro conjI)
    show "list_all isWhiteSpace (takeWhile isWhiteSpace a)"
      by (simp add: list_all_iff) (meson set_takeWhileD)
    show "sg = [] \<or> sg = ''+'' \<or> sg = ''-''" by (auto simp: sg_def)
    show "takeWhile isDigit S1 \<noteq> []" by (rule z)
    show "list_all isDigit (takeWhile isDigit S1)"
      by (simp add: list_all_iff) (meson set_takeWhileD)
    show "dropWhile isDigit S1 = [] \<or> \<not> isDigit (hd (dropWhile isDigit S1))"
      using hd_dropWhile [of isDigit S1] by blast
  qed
  have "a = takeWhile isWhiteSpace a @ sg @ takeWhile isDigit S1 @ dropWhile isDigit S1"
    using a S S1 by metis
  with li show ?thesis by blast
qed

lemma parseInt10_None_iff:
  "parseInt10 a = None \<longleftrightarrow>
     \<not> (\<exists>ws sg ds rest. leadingInteger ws sg ds rest \<and> a = ws @ sg @ ds @ rest)"
proof
  assume n: "parseInt10 a = None"
  show "\<not> (\<exists>ws sg ds rest. leadingInteger ws sg ds rest \<and> a = ws @ sg @ ds @ rest)"
  proof
    assume "\<exists>ws sg ds rest. leadingInteger ws sg ds rest \<and> a = ws @ sg @ ds @ rest"
    then obtain ws sg ds rest where "leadingInteger ws sg ds rest" "a = ws @ sg @ ds @ rest"
      by blast
    then have "parseInt10 a \<noteq> None" using parseInt10_leading by simp
    with n show False by simp
  qed
next
  assume "\<not> (\<exists>ws sg ds rest. leadingInteger ws sg ds rest \<and> a = ws @ sg @ ds @ rest)"
  then show "parseInt10 a = None"
    using parseInt10_Some_decompose [of a] by (cases "parseInt10 a") auto
qed

lemma compareTaskIds_2_10: "compareTaskIds lc ''2'' ''10'' = - 8"
  by (simp add: compareTaskIds_def parseInt10_def isWhiteSpace_def isDigit_def decimalValue_def)

lemma compareTaskIds_2a_10: "compareTaskIds lc ''2a'' ''10'' = - 8"
  by (simp add: compareTaskIds_def parseInt10_def isWhiteSpace_def isDigit_def decimalValue_def)

text \<open>
  For \<open>2a\<close> and \<open>10\<close> the comparator returns a negative number, so a sort puts \<open>2a\<close>
  first: \<open>parseInt\<close> reads 2 from \<open>2a\<close> and the comparison is numeric. The comparison
  the specification describes falls back to the string order here, which puts \<open>10\<close> first.
\<close>

theorem compareTaskIds_2a_10_counterexample:
  "compareTaskIds codeUnitCompare ''2a'' ''10'' < 0 \<and>
   0 < specifiedCompare codeUnitCompare ''2a'' ''10'' \<and>
   0 < codeUnitCompare ''2a'' ''10''"
  by (simp add: compareTaskIds_2a_10 specifiedCompare_def fullInteger_def isDigit_def)

text \<open>
  C1, as amended. The comparator orders \<open>2\<close> before \<open>10\<close> and \<open>2a\<close> before \<open>10\<close>. It
  compares numerically whenever each string begins, after optional white space and an
  optional sign, with a decimal digit: the result is the difference of the signed values of
  the two leading digit runs (for values below \<open>2^52\<close>, where the subtraction of doubles
  is exact), and whatever follows the digits is ignored. It falls back to
  \<open>localeCompare\<close> exactly when \<open>parseInt\<close> yields NaN for one of the strings, that
  is when one of them has no such leading integer.
\<close>

theorem compareTaskIds_leading_integer:
  "compareTaskIds lc ''2'' ''10'' < 0 \<and>
   compareTaskIds lc ''2a'' ''10'' < 0 \<and>
   (leadingInteger wa sa da ra \<and> leadingInteger wb sb db rb \<and>
    decimalValue da < 2 ^ 52 \<and> decimalValue db < 2 ^ 52 \<longrightarrow>
      compareTaskIds lc (wa @ sa @ da @ ra) (wb @ sb @ db @ rb) =
        signValue sa * int (decimalValue da) - signValue sb * int (decimalValue db)) \<and>
   (parseInt10 a = None \<or> parseInt10 b = None \<longrightarrow> compareTaskIds lc a b = lc a b) \<and>
   (parseInt10 a = None \<longleftrightarrow>
      \<not> (\<exists>ws sg ds rest. leadingInteger ws sg ds rest \<and> a = ws @ sg @ ds @ rest))"
proof (intro conjI impI)
  show "compareTaskIds lc ''2'' ''10'' < 0" by (simp add: compareTaskIds_2_10)
  show "compareTaskIds lc ''2a'' ''10'' < 0" by (simp add: compareTaskIds_2a_10)
  show "parseInt10 a = None \<longleftrightarrow>
      \<not> (\<exists>ws sg ds rest. leadingInteger ws sg ds rest \<and> a = ws @ sg @ ds @ rest)"
    by (rule parseInt10_None_iff)
next
  assume "leadingInteger wa sa da ra \<and> leadingInteger wb sb db rb \<and>
          decimalValue da < 2 ^ 52 \<and> decimalValue db < 2 ^ 52"
  then show "compareTaskIds lc (wa @ sa @ da @ ra) (wb @ sb @ db @ rb) =
        signValue sa * int (decimalValue da) - signValue sb * int (decimalValue db)"
    by (simp add: compareTaskIds_def parseInt10_leading)
next
  assume "parseInt10 a = None \<or> parseInt10 b = None"
  then show "compareTaskIds lc a b = lc a b"
    by (auto simp: compareTaskIds_def split: option.splits)
qed

theorem compareTaskIds_leading_integer_witness:
  "leadingInteger '' '' ''-'' ''12'' ''x'' \<and> leadingInteger [] [] ''3'' [] \<and>
   decimalValue ''12'' < 2 ^ 52 \<and> decimalValue ''3'' < 2 ^ 52 \<and>
   compareTaskIds codeUnitCompare '' -12x'' ''3'' = - 15 \<and>
   parseInt10 ''a2'' = None \<and>
   compareTaskIds codeUnitCompare ''a2'' ''10'' = 1 \<and>
   \<not> (\<exists>ws sg ds rest. leadingInteger ws sg ds rest \<and> ''a2'' = ws @ sg @ ds @ rest)"
proof -
  have l1: "leadingInteger '' '' ''-'' ''12'' ''x''"
    by (simp add: leadingInteger_def isWhiteSpace_def isDigit_def)
  have l2: "leadingInteger [] [] ''3'' []"
    by (simp add: leadingInteger_def isDigit_def)
  have n: "parseInt10 ''a2'' = None"
    by (simp add: parseInt10_def isWhiteSpace_def isDigit_def)
  have v: "signValue ''-'' * int (decimalValue ''12'') - signValue [] * int (decimalValue ''3'')
             = - 15"
    by (simp add: signValue_def decimalValue_def)
  have c: "codeUnitCompare ''a2'' ''10'' = 1" by simp
  have b: "decimalValue ''12'' < 2 ^ 52 \<and> decimalValue ''3'' < 2 ^ 52"
    by (simp add: decimalValue_def)
  show ?thesis
    using l1 l2 n v c b
      compareTaskIds_leading_integer [of codeUnitCompare "'' ''" "''-''" "''12''" "''x''"
        "[]" "[]" "''3''" "[]" "''a2''" "''10''"]
    by simp
qed

section \<open>Properties of mark-all-viewed\<close>

lemma markAll_fold_viewed:
  "fst (foldl markAllStep acc files) k =
     (case find (\<lambda>f. key f = k) (rev files) of
        None \<Rightarrow> fst acc k
      | Some f \<Rightarrow> Some \<lparr>viewed = True, contentHash = hashString (diffText f)\<rparr>)"
  by (induction files rule: rev_induct) (simp_all add: markAllStep_def)

lemma markAll_fold_collapsed:
  "snd (foldl markAllStep acc files) k =
     (if k \<in> key ` set files then Some True else snd acc k)"
  by (induction files rule: rev_induct) (auto simp: markAllStep_def)

lemma markAllViewed_collapsed:
  "f \<in> set files \<Longrightarrow> isCollapsed (collapsedByFileKey (markAllViewed files s)) (key f)"
  by (simp add: markAllViewed_def Let_def isCollapsed_def markAll_fold_collapsed)

lemma find_Some_set: "find P xs = Some x \<Longrightarrow> x \<in> set xs \<and> P x"
  by (induction xs) (auto split: if_splits)

lemma markAllViewed_lookup:
  assumes "f \<in> set files"
  shows "\<exists>g \<in> set files. key g = key f \<and>
           viewedFiles (markAllViewed files s) (key f) =
             Some \<lparr>viewed = True, contentHash = hashString (diffText g)\<rparr>"
proof (cases "find (\<lambda>g. key g = key f) (rev files)")
  case None
  then show ?thesis using assms by (auto simp: find_None_iff)
next
  case (Some g)
  then have "g \<in> set files \<and> key g = key f"
    using find_Some_set [of "\<lambda>g. key g = key f" "rev files" g] by simp
  then show ?thesis
    using Some by (auto simp: markAllViewed_def Let_def markAll_fold_viewed)
qed

lemma markAllViewed_viewed:
  assumes "f \<in> set files"
    and "\<forall>g \<in> set files. key g = key f \<longrightarrow> hashString (diffText g) = hashString (diffText f)"
  shows "viewedFiles (markAllViewed files s) (key f) =
           Some \<lparr>viewed = True, contentHash = hashString (diffText f)\<rparr>"
  using markAllViewed_lookup [OF assms(1), of s] assms(2) by auto

lemma distinct_keys_same_file:
  "distinct (map key files) \<Longrightarrow> f \<in> set files \<Longrightarrow> g \<in> set files \<Longrightarrow> key g = key f \<Longrightarrow> g = f"
  by (meson distinct_map inj_onD)

lemma split_repeated_example:
  "splitUnifiedDiffByFile sampleRepeatedFile
   = [\<lparr>key = ''x->x'', oldPath = ''x'', newPath = ''x'',
       diffText = ''diff --git a/x b/x'' @ [NL] @ ''--- a/x'' @ [NL] @ ''+++ b/x'' @ [NL] @
                  ''@@ -1 +1 @@'' @ [NL] @ ''-a'' @ [NL] @ ''+b'',
       isBinary = False, additions = 1, deletions = 1, isValid = Some True\<rparr>,
      \<lparr>key = ''x->x'', oldPath = ''x'', newPath = ''x'',
       diffText = ''diff --git a/x b/x'' @ [NL] @ ''--- a/x'' @ [NL] @ ''+++ b/x'' @ [NL] @
                  ''@@ -1 +1 @@'' @ [NL] @ ''-b'' @ [NL] @ ''+c'',
       isBinary = False, additions = 1, deletions = 1, isValid = Some True\<rparr>]"
  by code_simp

lemma hash_repeated_blocks:
  "hashString (''diff --git a/x b/x'' @ [NL] @ ''--- a/x'' @ [NL] @ ''+++ b/x'' @ [NL] @
               ''@@ -1 +1 @@'' @ [NL] @ ''-b'' @ [NL] @ ''+c'') \<noteq>
   hashString (''diff --git a/x b/x'' @ [NL] @ ''--- a/x'' @ [NL] @ ''+++ b/x'' @ [NL] @
               ''@@ -1 +1 @@'' @ [NL] @ ''-a'' @ [NL] @ ''+b'')"
  by (simp add: hash_eval)

lemma fileDiffs_repeated:
  "fileDiffs (splitUnifiedDiffByFile sampleRepeatedFile) None =
     splitUnifiedDiffByFile sampleRepeatedFile"
  by (simp add: fileDiffs_def split_repeated_example isDisplayable_def startsWith_def)

text \<open>
  The splitter returns two records with the key \<open>x->x\<close> for a diff that holds two blocks
  for the path \<open>x\<close>, and both are displayed. Mark-all-viewed stores one state per key, the
  one of the last record, so the first record is not viewed afterwards.
\<close>

theorem markAllViewed_repeated_key_counterexample:
  "length (fileDiffs (splitUnifiedDiffByFile sampleRepeatedFile) None) = 2 \<and>
   \<not> isFileViewed
        (viewedFiles (markAllViewed (fileDiffs (splitUnifiedDiffByFile sampleRepeatedFile) None)
                                     emptyViewState))
        (key (hd (fileDiffs (splitUnifiedDiffByFile sampleRepeatedFile) None)))
        (diffText (hd (fileDiffs (splitUnifiedDiffByFile sampleRepeatedFile) None)))"
  unfolding fileDiffs_repeated
  using hash_repeated_blocks
  by (simp add: split_repeated_example markAllViewed_def markAllStep_def isFileViewed_def)

text \<open>
  C9, as amended. Mark-all-viewed over a list of file records sets the display state of
  every file of the list to collapsed. It stores for each key the hash of the diff text of
  the last record with that key, so the effective viewed status is true for every file
  whose key is shared only with records of the same diff-text hash; when the keys of the
  list are distinct, every file is viewed, with the hash of its own diff text stored, and
  the viewed count is the length of the list.
\<close>

theorem markAllViewed_sets_all:
  "(\<forall>f \<in> set files. isCollapsed (collapsedByFileKey (markAllViewed files s)) (key f)) \<and>
   (\<forall>f \<in> set files.
      (\<forall>g \<in> set files. key g = key f \<longrightarrow> hashString (diffText g) = hashString (diffText f)) \<longrightarrow>
      viewedFiles (markAllViewed files s) (key f) =
        Some \<lparr>viewed = True, contentHash = hashString (diffText f)\<rparr> \<and>
      isFileViewed (viewedFiles (markAllViewed files s)) (key f) (diffText f)) \<and>
   (distinct (map key files) \<longrightarrow>
      (\<forall>f \<in> set files.
         viewedFiles (markAllViewed files s) (key f) =
           Some \<lparr>viewed = True, contentHash = hashString (diffText f)\<rparr> \<and>
         isFileViewed (viewedFiles (markAllViewed files s)) (key f) (diffText f)) \<and>
      getViewedCount files (viewedFiles (markAllViewed files s)) = length files)"
proof (intro conjI ballI impI)
  fix f assume "f \<in> set files"
  then show "isCollapsed (collapsedByFileKey (markAllViewed files s)) (key f)"
    by (rule markAllViewed_collapsed)
next
  fix f
  assume f: "f \<in> set files"
    and same: "\<forall>g \<in> set files. key g = key f \<longrightarrow>
                 hashString (diffText g) = hashString (diffText f)"
  show v: "viewedFiles (markAllViewed files s) (key f) =
        Some \<lparr>viewed = True, contentHash = hashString (diffText f)\<rparr>"
    by (rule markAllViewed_viewed [OF f same])
  show "isFileViewed (viewedFiles (markAllViewed files s)) (key f) (diffText f)"
    by (simp add: isFileViewed_def v)
next
  fix f
  assume d: "distinct (map key files)" and f: "f \<in> set files"
  have same: "\<forall>g \<in> set files. key g = key f \<longrightarrow>
                 hashString (diffText g) = hashString (diffText f)"
    using distinct_keys_same_file [OF d f] by blast
  show v: "viewedFiles (markAllViewed files s) (key f) =
        Some \<lparr>viewed = True, contentHash = hashString (diffText f)\<rparr>"
    by (rule markAllViewed_viewed [OF f same])
  show "isFileViewed (viewedFiles (markAllViewed files s)) (key f) (diffText f)"
    by (simp add: isFileViewed_def v)
next
  assume d: "distinct (map key files)"
  have "\<forall>f \<in> set files. isFileViewed (viewedFiles (markAllViewed files s)) (key f) (diffText f)"
  proof
    fix f assume f: "f \<in> set files"
    have same: "\<forall>g \<in> set files. key g = key f \<longrightarrow>
                 hashString (diffText g) = hashString (diffText f)"
      using distinct_keys_same_file [OF d f] by blast
    show "isFileViewed (viewedFiles (markAllViewed files s)) (key f) (diffText f)"
      by (simp add: isFileViewed_def markAllViewed_viewed [OF f same])
  qed
  then show "getViewedCount files (viewedFiles (markAllViewed files s)) = length files"
    by (simp add: getViewedCount_def)
qed

theorem markAllViewed_sets_all_witness:
  "(let files = fileDiffs (splitUnifiedDiffByFile sampleModifyDiff) None;
        s' = markAllViewed files emptyViewState
    in length files = 1 \<and> hd files \<in> set files \<and> distinct (map key files) \<and>
       isCollapsed (collapsedByFileKey s') (key (hd files)) \<and>
       viewedFiles s' (key (hd files)) =
         Some \<lparr>viewed = True, contentHash = hashString (diffText (hd files))\<rparr> \<and>
       isFileViewed (viewedFiles s') (key (hd files)) (diffText (hd files)) \<and>
       getViewedCount files (viewedFiles s') = length files)"
proof -
  define files where "files = fileDiffs (splitUnifiedDiffByFile sampleModifyDiff) None"
  have fs: "files = splitUnifiedDiffByFile sampleModifyDiff"
    by (simp add: files_def fileDiffs_def split_modify_example isDisplayable_def startsWith_def)
  have l: "length files = 1" by (simp add: fs split_modify_example)
  have m: "hd files \<in> set files" using l by (cases files) auto
  have d: "distinct (map key files)" using l by (cases files) auto
  have same: "\<forall>g \<in> set files. key g = key (hd files) \<longrightarrow>
                hashString (diffText g) = hashString (diffText (hd files))"
    using l by (cases files) auto
  show ?thesis
    using l m d same markAllViewed_sets_all [of files emptyViewState]
    unfolding files_def [symmetric] Let_def
    by blast
qed

section \<open>Properties of the navigation\<close>

lemma findIndexFrom_first:
  "i < length xs \<Longrightarrow> P (xs ! i) \<Longrightarrow> \<forall>j<i. \<not> P (xs ! j) \<Longrightarrow>
     findIndexFrom P xs n = n + int i"
proof (induction xs arbitrary: i n)
  case Nil
  then show ?case by simp
next
  case (Cons x xs)
  show ?case
  proof (cases i)
    case 0
    then show ?thesis using Cons.prems by simp
  next
    case (Suc i')
    have nx: "\<not> P x" using Cons.prems(3) Suc by force
    have "findIndexFrom P xs (n + 1) = n + 1 + int i'"
    proof (rule Cons.IH)
      show "i' < length xs" using Cons.prems(1) Suc by simp
      show "P (xs ! i')" using Cons.prems(2) Suc by simp
      show "\<forall>j<i'. \<not> P (xs ! j)" using Cons.prems(3) Suc by force
    qed
    then show ?thesis using nx Suc by simp
  qed
qed

lemma findIndexFrom_none:
  "\<forall>x \<in> set xs. \<not> P x \<Longrightarrow> findIndexFrom P xs n = - 1"
  by (induction xs arbitrary: n) auto

lemma drop_as_map: "drop k xs = map ((!) xs) [k..<length xs]"
  by (rule nth_equalityI) auto

lemma take_as_map: "i \<le> length xs \<Longrightarrow> take i xs = map ((!) xs) [0..<i]"
  by (rule nth_equalityI) auto

lemma find_map_index:
  "find P (map f js) = map_option f (find (\<lambda>j. P (f j)) js)"
  by (induction js) auto

lemma find_append_case:
  "find P (xs @ ys) = (case find P xs of None \<Rightarrow> find P ys | Some x \<Rightarrow> Some x)"
  by (induction xs) auto

lemma nextUnviewedFile_cyclic:
  assumes "i < length allFiles"
  shows "nextUnviewedFile allFiles nv i =
     map_option ((!) allFiles)
       (find (\<lambda>j. \<not> isFileViewed nv (key (allFiles ! j)) (diffText (allFiles ! j)))
          ([Suc i..<length allFiles] @ [0..<i]))"
proof -
  have t: "take i allFiles = map ((!) allFiles) [0..<i]"
    using assms by (simp add: take_as_map)
  have d: "drop (i + 1) allFiles = map ((!) allFiles) [Suc i..<length allFiles]"
    using drop_as_map [of "i + 1" allFiles] by simp
  show ?thesis
    unfolding nextUnviewedFile_def t d find_map_index find_append_case
    by (simp split: option.splits)
qed


lemma nextUnviewedFile_all_viewed:
  assumes "\<forall>f \<in> set allFiles. isFileViewed nv (key f) (diffText f)"
  shows "nextUnviewedFile allFiles nv i = None"
proof -
  have "find (\<lambda>file. \<not> isFileViewed nv (key file) (diffText file)) (drop (i + 1) allFiles) = None"
    using assms by (auto simp: find_None_iff dest: in_set_dropD)
  moreover
  have "find (\<lambda>file. \<not> isFileViewed nv (key file) (diffText file)) (take i allFiles) = None"
    using assms by (auto simp: find_None_iff dest: in_set_takeD)
  ultimately show ?thesis by (simp add: nextUnviewedFile_def)
qed

lemma handleToggleViewed_selected:
  "snd (handleToggleViewed allFiles sel k t s) =
     (if \<not> isFileViewed (viewedFiles s) k t \<and> sel
      then (if findIndex (\<lambda>f. key f = k) allFiles = - 1 then None
            else (case nextUnviewedFile allFiles
                         ((viewedFiles s)(k \<mapsto> \<lparr>viewed = True, contentHash = hashString t\<rparr>))
                         (nat (findIndex (\<lambda>f. key f = k) allFiles)) of
                    None \<Rightarrow> None
                  | Some file \<Rightarrow> selectablePath file))
      else None)"
  by (simp add: handleToggleViewed_def Let_def split: option.splits)

lemma split_three_example:
  "splitUnifiedDiffByFile sampleThreeFiles
   = [\<lparr>key = ''2->2'', oldPath = ''2'', newPath = ''2'',
       diffText = ''diff --git a/2 b/2'' @ [NL] @ ''--- a/2'' @ [NL] @ ''+++ b/2'' @ [NL] @
                  ''@@ -1 +1 @@'' @ [NL] @ ''-a'' @ [NL] @ ''+x'',
       isBinary = False, additions = 1, deletions = 1, isValid = Some True\<rparr>,
      \<lparr>key = ''1->1'', oldPath = ''1'', newPath = ''1'',
       diffText = ''diff --git a/1 b/1'' @ [NL] @ ''--- a/1'' @ [NL] @ ''+++ b/1'' @ [NL] @
                  ''@@ -1 +1 @@'' @ [NL] @ ''-a'' @ [NL] @ ''+y'',
       isBinary = False, additions = 1, deletions = 1, isValid = Some True\<rparr>,
      \<lparr>key = ''3->3'', oldPath = ''3'', newPath = ''3'',
       diffText = ''diff --git a/3 b/3'' @ [NL] @ ''--- a/3'' @ [NL] @ ''+++ b/3'' @ [NL] @
                  ''@@ -1 +1 @@'' @ [NL] @ ''-a'' @ [NL] @ ''+z'',
       isBinary = False, additions = 1, deletions = 1, isValid = Some True\<rparr>]"
  by code_simp

lemma parseInt10_sample_keys:
  "parseInt10 ''2->2'' = Some 2" "parseInt10 ''1->1'' = Some 1" "parseInt10 ''3->3'' = Some 3"
  by (simp_all add: parseInt10_def isWhiteSpace_def isDigit_def decimalValue_def)

lemma three_files_code_order:
  "snd (handleToggleViewed (splitUnifiedDiffByFile sampleThreeFiles) True ''2->2'' t
          emptyViewState) = Some ''1''"
  by (simp add: handleToggleViewed_selected split_three_example emptyViewState_def
        isFileViewed_def findIndex_def nextUnviewedFile_def selectablePath_def)

lemma three_files_specified_order:
  "specifiedNextFocus lc (splitUnifiedDiffByFile sampleThreeFiles) ''2->2'' t
     emptyViewState = Some ''3''"
  by (simp add: specifiedNextFocus_def specifiedDisplayOrder_def split_three_example
        compareTaskIds_def parseInt10_sample_keys handleToggleViewed_selected
        emptyViewState_def isFileViewed_def findIndex_def nextUnviewedFile_def
        selectablePath_def)

text \<open>
  The splitter returns the files of \<open>sampleThreeFiles\<close> in the order 2, 1, 3. Marking file 2
  viewed selects file 1, the next record of the list; in the order of the key comparison
  (1, 2, 3) the next file after 2 is file 3.
\<close>

theorem handleToggleViewed_order_counterexample:
  "snd (handleToggleViewed (splitUnifiedDiffByFile sampleThreeFiles) True ''2->2''
          (diffText (hd (splitUnifiedDiffByFile sampleThreeFiles))) emptyViewState)
     = Some ''1'' \<and>
   specifiedNextFocus codeUnitCompare (splitUnifiedDiffByFile sampleThreeFiles) ''2->2''
          (diffText (hd (splitUnifiedDiffByFile sampleThreeFiles))) emptyViewState
     = Some ''3''"
  by (simp only: three_files_code_order three_files_specified_order)

text \<open>
  C8, as amended. When a file goes from unviewed to viewed and the select callback is
  supplied, the next unviewed file is the first unviewed one among the positions
  \<open>i + 1, \<dots>, n - 1, 0, \<dots>, i - 1\<close> of the unfiltered parsed list, in that order, where
  \<open>i\<close> is the first position holding the toggled key: the order is the one in which the
  records were parsed, no key comparison is applied, and the search wraps around to the
  start of the list. When that file has a path to select, the callback receives it.
  Nothing is selected if every file is viewed.
\<close>

theorem handleToggleViewed_next_unviewed:
  "(\<not> isFileViewed (viewedFiles s) k t \<and> i < length allFiles \<and> key (allFiles ! i) = k \<and>
    (\<forall>j<i. key (allFiles ! j) \<noteq> k) \<and>
    find (\<lambda>j. \<not> isFileViewed
                   ((viewedFiles s)(k \<mapsto> \<lparr>viewed = True, contentHash = hashString t\<rparr>))
                   (key (allFiles ! j)) (diffText (allFiles ! j)))
       ([Suc i..<length allFiles] @ [0..<i]) = Some n \<and>
    selectablePath (allFiles ! n) = Some path \<longrightarrow>
      snd (handleToggleViewed allFiles True k t s) = Some path) \<and>
   ((\<forall>f \<in> set allFiles.
        isFileViewed ((viewedFiles s)(k \<mapsto> \<lparr>viewed = True, contentHash = hashString t\<rparr>))
          (key f) (diffText f)) \<longrightarrow>
      snd (handleToggleViewed allFiles sel k t s) = None)"
proof (intro conjI impI)
  assume h: "\<not> isFileViewed (viewedFiles s) k t \<and> i < length allFiles \<and>
    key (allFiles ! i) = k \<and> (\<forall>j<i. key (allFiles ! j) \<noteq> k) \<and>
    find (\<lambda>j. \<not> isFileViewed
                   ((viewedFiles s)(k \<mapsto> \<lparr>viewed = True, contentHash = hashString t\<rparr>))
                   (key (allFiles ! j)) (diffText (allFiles ! j)))
       ([Suc i..<length allFiles] @ [0..<i]) = Some n \<and>
    selectablePath (allFiles ! n) = Some path"
  have fi: "findIndex (\<lambda>f. key f = k) allFiles = int i"
    using h findIndexFrom_first [of i allFiles "\<lambda>f. key f = k" 0]
    by (simp add: findIndex_def)
  have nx: "nextUnviewedFile allFiles
              ((viewedFiles s)(k \<mapsto> \<lparr>viewed = True, contentHash = hashString t\<rparr>)) i
            = Some (allFiles ! n)"
    using h by (simp add: nextUnviewedFile_cyclic)
  show "snd (handleToggleViewed allFiles True k t s) = Some path"
    using h by (simp add: handleToggleViewed_selected fi nx)
next
  assume "\<forall>f \<in> set allFiles.
        isFileViewed ((viewedFiles s)(k \<mapsto> \<lparr>viewed = True, contentHash = hashString t\<rparr>))
          (key f) (diffText f)"
  then show "snd (handleToggleViewed allFiles sel k t s) = None"
    by (simp add: handleToggleViewed_selected nextUnviewedFile_all_viewed)
qed

theorem handleToggleViewed_next_unviewed_witness:
  "\<not> isFileViewed (viewedFiles emptyViewState) ''2->2'' ''+x'' \<and>
   (0::nat) < length (splitUnifiedDiffByFile sampleThreeFiles) \<and>
   key (splitUnifiedDiffByFile sampleThreeFiles ! 0) = ''2->2'' \<and>
   selectablePath (splitUnifiedDiffByFile sampleThreeFiles ! 1) = Some ''1'' \<and>
   snd (handleToggleViewed (splitUnifiedDiffByFile sampleThreeFiles) True ''2->2'' ''+x''
          emptyViewState) = Some ''1'' \<and>
   key (splitUnifiedDiffByFile sampleThreeFiles ! 2) = ''3->3'' \<and>
   selectablePath (splitUnifiedDiffByFile sampleThreeFiles ! 0) = Some ''2'' \<and>
   snd (handleToggleViewed (splitUnifiedDiffByFile sampleThreeFiles) True ''3->3'' ''+x''
          emptyViewState) = Some ''2'' \<and>
   isFileViewed
     ((viewedFiles emptyViewState)
        (''x->x'' \<mapsto> \<lparr>viewed = True,
                        contentHash = hashString
                          (diffText (hd (splitUnifiedDiffByFile sampleModifyDiff)))\<rparr>))
     (key (hd (splitUnifiedDiffByFile sampleModifyDiff)))
     (diffText (hd (splitUnifiedDiffByFile sampleModifyDiff))) \<and>
   snd (handleToggleViewed (splitUnifiedDiffByFile sampleModifyDiff) True ''x->x''
          (diffText (hd (splitUnifiedDiffByFile sampleModifyDiff))) emptyViewState) = None"
proof -
  let ?three = "splitUnifiedDiffByFile sampleThreeFiles"
  let ?one = "splitUnifiedDiffByFile sampleModifyDiff"
  let ?nv = "\<lambda>k. (viewedFiles emptyViewState)
                     (k \<mapsto> \<lparr>viewed = True, contentHash = hashString ''+x''\<rparr>)"
  have n: "\<not> isFileViewed (viewedFiles emptyViewState) k t" for k t
    by (simp add: emptyViewState_def isFileViewed_def)
  have l: "length ?three = 3" by (simp add: split_three_example)
  have k0: "key (?three ! 0) = ''2->2''" by (simp add: split_three_example)
  have k2: "key (?three ! 2) = ''3->3''" by (simp add: split_three_example)
  have k2': "\<forall>j<2. key (?three ! j) \<noteq> ''3->3''"
  proof (intro allI impI)
    fix j :: nat assume "j < 2"
    then have "j = 0 \<or> j = 1" by arith
    then show "key (?three ! j) \<noteq> ''3->3''"
      by (auto simp: split_three_example)
  qed
  have p1: "selectablePath (?three ! 1) = Some ''1''"
    by (simp add: split_three_example selectablePath_def)
  have p0: "selectablePath (?three ! 0) = Some ''2''"
    by (simp add: split_three_example selectablePath_def)
  have f1: "find (\<lambda>j. \<not> isFileViewed (?nv ''2->2'') (key (?three ! j)) (diffText (?three ! j)))
              ([Suc 0..<length ?three] @ [0..<0]) = Some 1"
    by (simp add: l upt_rec) (simp add: split_three_example emptyViewState_def isFileViewed_def)
  have f2: "find (\<lambda>j. \<not> isFileViewed (?nv ''3->3'') (key (?three ! j)) (diffText (?three ! j)))
              ([Suc 2..<length ?three] @ [0..<2]) = Some 0"
    by (simp add: l upt_rec) (simp add: split_three_example emptyViewState_def isFileViewed_def)
  have a: "snd (handleToggleViewed ?three True ''2->2'' ''+x'' emptyViewState) = Some ''1''"
    using handleToggleViewed_next_unviewed
            [of emptyViewState "''2->2''" "''+x''" 0 ?three 1 "''1''" True]
      n k0 l p1 f1
    by simp
  have b: "snd (handleToggleViewed ?three True ''3->3'' ''+x'' emptyViewState) = Some ''2''"
    using handleToggleViewed_next_unviewed
            [of emptyViewState "''3->3''" "''+x''" 2 ?three 0 "''2''" True]
      n k2 k2' l p0 f2
    by simp
  have v: "isFileViewed
     ((viewedFiles emptyViewState)
        (''x->x'' \<mapsto> \<lparr>viewed = True, contentHash = hashString (diffText (hd ?one))\<rparr>))
     (key (hd ?one)) (diffText (hd ?one))"
    by (simp add: split_modify_example isFileViewed_def)
  have one: "set ?one = {hd ?one}" by (simp add: split_modify_example)
  have c: "snd (handleToggleViewed ?one True ''x->x'' (diffText (hd ?one)) emptyViewState) = None"
    using handleToggleViewed_next_unviewed
            [of emptyViewState "''x->x''" "diffText (hd ?one)" 0 ?one 0 "[]" True] v
    unfolding one by simp
  show ?thesis
    using n l k0 k2 p0 p1 a b v c by simp
qed

section \<open>Properties of binary blocks\<close>

lemma splitLines_nonempty: "splitLines s \<noteq> []"
  by (induction s) (auto split: list.splits)

lemma splitLines_no_newline: "l \<in> set (splitLines s) \<Longrightarrow> NL \<notin> set l"
  by (induction s arbitrary: l) (auto split: if_splits list.splits)

lemma splitLines_single: "NL \<notin> set l \<Longrightarrow> splitLines l = [l]"
  by (induction l) auto

lemma splitLines_append_newline:
  "splitLines (xs @ NL # ys) = splitLines xs @ splitLines ys"
proof (induction xs)
  case Nil
  show ?case by simp
next
  case (Cons c xs)
  show ?case
    using Cons.IH splitLines_nonempty [of xs]
    by (cases "splitLines xs") auto
qed

lemma joinLines_cons: "joinLines (l # ls) = l @ (if ls = [] then [] else NL # joinLines ls)"
  by (cases ls) simp_all

lemma joinLines_snoc: "joinLines (ls @ [l]) = (if ls = [] then [] else joinLines ls @ [NL]) @ l"
  by (induction ls rule: joinLines.induct) simp_all

lemma joinLines_middle:
  "joinLines (pre @ l # post) =
     (if pre = [] then [] else joinLines pre @ [NL]) @ l @
     (if post = [] then [] else NL # joinLines post)"
proof (induction pre rule: joinLines.induct)
  case 1
  show ?case by (simp add: joinLines_cons)
next
  case (2 p)
  show ?case by (simp add: joinLines_cons)
next
  case (3 p q ps)
  then show ?case by simp
qed

lemma dropWhile_keeps_solid:
  assumes "l \<noteq> []" "\<not> P (hd l)"
  shows "dropWhile P (A @ l @ B) = dropWhile P A @ l @ B"
proof (cases "\<forall>x \<in> set A. P x")
  case True
  then have "dropWhile P A = []" by simp
  moreover have "dropWhile P (l @ B) = l @ B"
    using assms by (cases l) auto
  ultimately show ?thesis using True by simp
next
  case False
  then show ?thesis by (auto simp: dropWhile_append)
qed

lemma trim_keeps_solid:
  assumes "l \<noteq> []" "\<not> isWhiteSpace (hd l)" "\<not> isWhiteSpace (last l)"
  shows "trim (A @ l @ B) =
           dropWhile isWhiteSpace A @ l @ rev (dropWhile isWhiteSpace (rev B))"
proof -
  have r: "rev l \<noteq> []" "\<not> isWhiteSpace (hd (rev l))"
    using assms by (simp_all add: hd_rev)
  have "dropWhile isWhiteSpace (A @ l @ B) = dropWhile isWhiteSpace A @ l @ B"
    using dropWhile_keeps_solid [of l isWhiteSpace A B] assms by simp
  moreover
  have "dropWhile isWhiteSpace (rev B @ rev l @ rev (dropWhile isWhiteSpace A)) =
          dropWhile isWhiteSpace (rev B) @ rev l @ rev (dropWhile isWhiteSpace A)"
    using dropWhile_keeps_solid [of "rev l" isWhiteSpace "rev B" "rev (dropWhile isWhiteSpace A)"] r
    by simp
  ultimately show ?thesis by (simp add: trim_def)
qed

lemma dropWhile_ends_newline:
  assumes "A = [] \<or> last A = NL"
  shows "dropWhile P A = [] \<or> (\<exists>A''. dropWhile P A = A'' @ [NL])"
proof (cases "dropWhile P A = []")
  case True
  then show ?thesis by simp
next
  case False
  have "A = takeWhile P A @ dropWhile P A" by simp
  then have "last A = last (dropWhile P A)"
    using False by (metis last_appendR)
  moreover have "A \<noteq> []" using False by auto
  ultimately have "last (dropWhile P A) = NL" using assms by simp
  then show ?thesis
    using False by (metis append_butlast_last_id)
qed

lemma rev_dropWhile_starts_newline:
  assumes "B = [] \<or> hd B = NL"
  shows "rev (dropWhile P (rev B)) = [] \<or> (\<exists>B''. rev (dropWhile P (rev B)) = NL # B'')"
proof -
  have "rev B = [] \<or> last (rev B) = NL"
    using assms by (auto simp: last_rev)
  then have "dropWhile P (rev B) = [] \<or> (\<exists>A''. dropWhile P (rev B) = A'' @ [NL])"
    by (rule dropWhile_ends_newline)
  then show ?thesis
  proof
    assume "dropWhile P (rev B) = []"
    then show ?thesis by simp
  next
    assume "\<exists>A''. dropWhile P (rev B) = A'' @ [NL]"
    then obtain A'' where "dropWhile P (rev B) = A'' @ [NL]" by blast
    then have "rev (dropWhile P (rev B)) = NL # rev A''" by simp
    then show ?thesis by blast
  qed
qed

lemma marker_solid:
  assumes "isBinaryMarker l"
  shows "l \<noteq> []" "\<not> isWhiteSpace (hd l)" "\<not> isWhiteSpace (last l)"
proof -
  obtain r where r: "l = ''Binary files '' @ r"
    using assms by (auto simp: isBinaryMarker_def startsWith_def prefix_def)
  obtain p where p: "l = p @ '' differ''"
    using assms by (auto simp: isBinaryMarker_def endsWith_def suffix_def)
  show "l \<noteq> []" using r by simp
  show "\<not> isWhiteSpace (hd l)" by (subst r) (simp add: isWhiteSpace_def)
  show "\<not> isWhiteSpace (last l)" by (subst p) (simp add: isWhiteSpace_def)
qed


lemma trimmed_block_has_marker:
  assumes m: "isBinaryMarker l" and n: "NL \<notin> set l"
    and A: "A' = [] \<or> (\<exists>A''. A' = A'' @ [NL])"
    and B: "B' = [] \<or> (\<exists>B''. B' = NL # B'')"
  shows "keepBlock (A' @ l @ B') \<and> l \<in> set (splitLines (A' @ l @ B'))"
proof -
  obtain r where r: "l = ''Binary files '' @ r"
    using m by (auto simp: isBinaryMarker_def startsWith_def prefix_def)
  have tail: "l \<in> set (splitLines (l @ B'))"
  proof (cases "B' = []")
    case True
    then show ?thesis using n by (simp add: splitLines_single)
  next
    case False
    then obtain B'' where "B' = NL # B''" using B by blast
    then show ?thesis
      using n by (simp add: splitLines_append_newline splitLines_single)
  qed
  show ?thesis
  proof (cases "A' = []")
    case True
    have "startsWith (l @ B') ''Binary files ''"
      by (subst r) (simp add: startsWith_def)
    then have "keepBlock (l @ B')"
      using marker_solid(1) [OF m] by (simp add: keepBlock_def)
    then show ?thesis using True tail by simp
  next
    case False
    then obtain A'' where A'': "A' = A'' @ [NL]" using A by blast
    have "A' @ l @ B' = A'' @ (NL # ''Binary files '') @ (r @ B')"
      by (subst r) (simp add: A'')
    then have "includes_str (A' @ l @ B') (NL # ''Binary files '')"
      unfolding includes_str_def sublist_def by blast
    then have k: "keepBlock (A' @ l @ B')"
      using marker_solid(1) [OF m] by (simp add: keepBlock_def)
    have "splitLines (A' @ l @ B') = splitLines A'' @ splitLines (l @ B')"
      using splitLines_append_newline [of A'' "l @ B'"] by (simp add: A'')
    then show ?thesis using k tail by simp
  qed
qed

lemma pushCurrent_marker:
  assumes l: "l \<in> set current" and m: "isBinaryMarker l"
    and n: "\<forall>x \<in> set current. NL \<notin> set x"
  shows "\<exists>T. fst (pushCurrent (blocks, current)) = blocks @ [T] \<and> l \<in> set (splitLines T)"
proof -
  obtain pre post where c: "current = pre @ l # post"
    using l by (auto dest: split_list)
  define A where "A = (if pre = [] then [] else joinLines pre @ [NL])"
  define B where "B = (if post = [] then [] else NL # joinLines post)"
  have j: "joinLines current = A @ l @ B"
    by (simp add: c joinLines_middle A_def B_def)
  have t: "trim (joinLines current) =
             dropWhile isWhiteSpace A @ l @ rev (dropWhile isWhiteSpace (rev B))"
    unfolding j by (rule trim_keeps_solid [OF marker_solid [OF m]])
  have A': "dropWhile isWhiteSpace A = [] \<or> (\<exists>A''. dropWhile isWhiteSpace A = A'' @ [NL])"
    by (rule dropWhile_ends_newline) (simp add: A_def)
  have B': "rev (dropWhile isWhiteSpace (rev B)) = [] \<or>
            (\<exists>B''. rev (dropWhile isWhiteSpace (rev B)) = NL # B'')"
    by (rule rev_dropWhile_starts_newline) (simp add: B_def)
  have "keepBlock (trim (joinLines current)) \<and> l \<in> set (splitLines (trim (joinLines current)))"
    unfolding t using trimmed_block_has_marker [OF m _ A' B'] n l by blast
  then show ?thesis by (simp add: pushCurrent_def Let_def)
qed

lemma pushCurrent_blocks_mono: "set (fst st) \<subseteq> set (fst (pushCurrent st))"
  by (auto simp: pushCurrent_def Let_def)

lemma splitLoop_covers_marker:
  assumes m: "isBinaryMarker l"
    and n: "\<forall>x \<in> set (snd st) \<union> set ls. NL \<notin> set x"
    and c: "(\<exists>T \<in> set (fst st). l \<in> set (splitLines T)) \<or> l \<in> set (snd st) \<or> l \<in> set ls"
  shows "\<exists>T \<in> set (fst (pushCurrent (splitLoop ls st))). l \<in> set (splitLines T)"
  using n c
proof (induction ls arbitrary: st)
  case Nil
  from Nil.prems(2) show ?case
  proof (elim disjE)
    assume "\<exists>T \<in> set (fst st). l \<in> set (splitLines T)"
    then show ?thesis using pushCurrent_blocks_mono [of st] by auto
  next
    assume "l \<in> set (snd st)"
    then obtain T where "fst (pushCurrent (fst st, snd st)) = fst st @ [T]"
        "l \<in> set (splitLines T)"
      using pushCurrent_marker [OF _ m, of "snd st" "fst st"] Nil.prems(1) by auto
    then show ?thesis by auto
  next
    assume "l \<in> set []"
    then show ?thesis by simp
  qed
next
  case (Cons line rest)
  define st1 where "st1 = (if startsWith line ''diff --git '' \<and> length (snd st) > 0
                            then pushCurrent st else st)"
  define st2 where "st2 = (fst st1, snd st1 @ [line])"
  have loop: "splitLoop (line # rest) st = splitLoop rest st2"
    by (simp add: st1_def st2_def Let_def)
  have cur: "snd st1 = [] \<or> snd st1 = snd st"
    by (simp add: st1_def pushCurrent_def Let_def)
  have n2: "\<forall>x \<in> set (snd st2) \<union> set rest. NL \<notin> set x"
    using Cons.prems(1) cur by (auto simp: st2_def)
  have c2: "(\<exists>T \<in> set (fst st2). l \<in> set (splitLines T)) \<or> l \<in> set (snd st2) \<or> l \<in> set rest"
    using Cons.prems(2)
  proof (elim disjE)
    assume "\<exists>T \<in> set (fst st). l \<in> set (splitLines T)"
    then have "\<exists>T \<in> set (fst st1). l \<in> set (splitLines T)"
      using pushCurrent_blocks_mono [of st] by (auto simp: st1_def)
    then show ?thesis by (simp add: st2_def)
  next
    assume a: "l \<in> set (snd st)"
    show ?thesis
    proof (cases "startsWith line ''diff --git '' \<and> length (snd st) > 0")
      case True
      obtain T where "fst (pushCurrent (fst st, snd st)) = fst st @ [T]"
          "l \<in> set (splitLines T)"
        using pushCurrent_marker [OF a m, of "fst st"] Cons.prems(1) by auto
      then have "\<exists>T \<in> set (fst st1). l \<in> set (splitLines T)"
        using True by (auto simp: st1_def)
      then show ?thesis by (simp add: st2_def)
    next
      case False
      then show ?thesis using a by (auto simp: st1_def st2_def)
    qed
  next
    assume "l \<in> set (line # rest)"
    then show ?thesis by (auto simp: st2_def)
  qed
  show ?case
    unfolding loop by (rule Cons.IH [OF n2 c2])
qed

lemma diffBlocks_cover_marker:
  assumes "l \<in> set (splitLines (normalizeCRLF input))" "isBinaryMarker l"
  shows "\<exists>T \<in> set (diffBlocks input). l \<in> set (splitLines T)"
  unfolding diffBlocks_def
  using splitLoop_covers_marker [OF assms(2), of "([], [])" "splitLines (normalizeCRLF input)"]
        assms(1) splitLines_no_newline
  by auto

lemma scan_binary:
  "scanIsBinary (foldl scanLine s ls) = (scanIsBinary s \<or> (\<exists>l \<in> set ls. isBinaryMarker l))"
  by (induction ls arbitrary: s) (auto simp: scanLine_def Let_def isBinaryMarker_def)

lemma parseBlock_binary:
  "isBinary (parseBlock b i) = (\<exists>l \<in> set (splitLines b). isBinaryMarker l)"
  by (simp add: parseBlock_fields scan_binary scanInit_def)

lemma parseBlock_binary_valid:
  "isBinary (parseBlock b i) \<Longrightarrow> isValid (parseBlock b i) = Some True"
  by (simp add: parseBlock_def Let_def)

lemma splitUnifiedDiffByFile_of_block:
  assumes "T \<in> set (diffBlocks input)"
  shows "\<exists>i. parseBlock T i \<in> set (splitUnifiedDiffByFile input)"
proof -
  obtain i where i: "i < length (diffBlocks input)" "diffBlocks input ! i = T"
    using assms by (auto simp: in_set_conv_nth)
  then have "(i, T) \<in> set (enumerate 0 (diffBlocks input))"
    by (auto simp: in_set_enumerate_eq)
  then have "parseBlock T i \<in> set (splitUnifiedDiffByFile input)"
    unfolding splitUnifiedDiffByFile_def by force
  then show ?thesis by blast
qed


lemma split_two_example:
  "splitUnifiedDiffByFile sampleTwoFiles
   = [\<lparr>key = ''x->x'', oldPath = ''x'', newPath = ''x'',
       diffText = ''diff --git a/x b/x'' @ [NL] @ ''--- a/x'' @ [NL] @ ''+++ b/x'' @ [NL] @
                  ''@@ -1 +1 @@'' @ [NL] @ ''-a'' @ [NL] @ ''+b'',
       isBinary = False, additions = 1, deletions = 1, isValid = Some True\<rparr>,
      \<lparr>key = ''file-1'', oldPath = [], newPath = [],
       diffText = ''diff --git a/i.png b/i.png'' @ [NL] @
                  ''Binary files a/i.png and b/i.png differ'',
       isBinary = True, additions = 0, deletions = 0, isValid = Some True\<rparr>]"
  by code_simp

lemma two_files_marker_line:
  "''Binary files a/i.png and b/i.png differ'' \<in> set (splitLines (normalizeCRLF sampleTwoFiles))"
  by code_simp

lemma marker_examples:
  "isBinaryMarker ''Binary files a/x and b/x differ''"
  "isBinaryMarker ''Binary files a/i.png and b/i.png differ''"
  by code_simp+

text \<open>
  C5. A record built from a block that has a line starting with \<open>Binary files\<close> and a
  space and ending with a space and \<open>differ\<close> is binary and valid, whatever else the block
  holds; no condition on hunk headers enters. The splitter drops no such line: for every
  input, each such line of the input is a line of the diff text of some record returned,
  and that record is binary and valid. For the lone line
  \<open>Binary files a/x and b/x differ\<close> the splitter returns one binary, valid record, although
  \<open>validateDiffHunk\<close> rejects that block.
\<close>

theorem binary_block_valid:
  "((\<exists>l \<in> set (splitLines blockText). isBinaryMarker l) \<longrightarrow>
      isBinary (parseBlock blockText index) \<and>
      isValid (parseBlock blockText index) = Some True) \<and>
   (\<forall>l \<in> set (splitLines (normalizeCRLF input)).
      isBinaryMarker l \<longrightarrow>
      (\<exists>r \<in> set (splitUnifiedDiffByFile input).
         l \<in> set (splitLines (diffText r)) \<and> isBinary r \<and> isValid r = Some True)) \<and>
   (\<forall>r \<in> set (splitUnifiedDiffByFile input).
      (\<exists>l \<in> set (splitLines (diffText r)). isBinaryMarker l) \<longrightarrow>
      isBinary r \<and> isValid r = Some True) \<and>
   isBinaryMarker ''Binary files a/x and b/x differ'' \<and>
   map (\<lambda>r. (isBinary r, isValid r)) (splitUnifiedDiffByFile sampleBinaryOnly)
     = [(True, Some True)] \<and>
   valid (validateDiffHunk sampleBinaryOnly) = False"
proof (intro conjI ballI impI)
  assume "\<exists>l \<in> set (splitLines blockText). isBinaryMarker l"
  then have b: "isBinary (parseBlock blockText index)" by (simp add: parseBlock_binary)
  then show "isBinary (parseBlock blockText index)" .
  show "isValid (parseBlock blockText index) = Some True"
    by (rule parseBlock_binary_valid [OF b])
next
  fix l
  assume l: "l \<in> set (splitLines (normalizeCRLF input))" and m: "isBinaryMarker l"
  obtain T where T: "T \<in> set (diffBlocks input)" "l \<in> set (splitLines T)"
    using diffBlocks_cover_marker [OF l m] by blast
  obtain i where i: "parseBlock T i \<in> set (splitUnifiedDiffByFile input)"
    using splitUnifiedDiffByFile_of_block [OF T(1)] by blast
  have b: "isBinary (parseBlock T i)"
    using T(2) m by (auto simp: parseBlock_binary)
  have "l \<in> set (splitLines (diffText (parseBlock T i))) \<and> isBinary (parseBlock T i) \<and>
        isValid (parseBlock T i) = Some True"
    using T(2) b parseBlock_binary_valid [OF b] by (simp add: parseBlock_fields(1))
  then show "\<exists>r \<in> set (splitUnifiedDiffByFile input).
         l \<in> set (splitLines (diffText r)) \<and> isBinary r \<and> isValid r = Some True"
    using i by blast
next
  fix r
  assume r: "r \<in> set (splitUnifiedDiffByFile input)"
    and e: "\<exists>l \<in> set (splitLines (diffText r)). isBinaryMarker l"
  obtain i b where rb: "r = parseBlock b i"
    using splitUnifiedDiffByFile_records [OF r] by blast
  have bin: "isBinary (parseBlock b i)"
    using e by (simp add: rb parseBlock_binary parseBlock_fields(1))
  show "isBinary r" using bin by (simp add: rb)
  show "isValid r = Some True" using parseBlock_binary_valid [OF bin] by (simp add: rb)
next
  show "isBinaryMarker ''Binary files a/x and b/x differ''"
    by (rule marker_examples(1))
next
  show "map (\<lambda>r. (isBinary r, isValid r)) (splitUnifiedDiffByFile sampleBinaryOnly)
     = [(True, Some True)]"
    by (simp add: split_binary_example)
next
  show "valid (validateDiffHunk sampleBinaryOnly) = False"
    by code_simp
qed

theorem binary_block_valid_witness:
  "(\<exists>l \<in> set (splitLines ''Binary files a/x and b/x differ''). isBinaryMarker l) \<and>
   isBinary (parseBlock ''Binary files a/x and b/x differ'' 0) \<and>
   isValid (parseBlock ''Binary files a/x and b/x differ'' 0) = Some True \<and>
   ''Binary files a/i.png and b/i.png differ''
      \<in> set (splitLines (normalizeCRLF sampleTwoFiles)) \<and>
   isBinaryMarker ''Binary files a/i.png and b/i.png differ'' \<and>
   (\<exists>r \<in> set (splitUnifiedDiffByFile sampleTwoFiles).
      ''Binary files a/i.png and b/i.png differ'' \<in> set (splitLines (diffText r)) \<and>
      isBinary r \<and> isValid r = Some True) \<and>
   map (\<lambda>r. (isBinary r, isValid r)) (splitUnifiedDiffByFile sampleTwoFiles)
     = [(False, Some True), (True, Some True)]"
proof -
  have e: "\<exists>l \<in> set (splitLines ''Binary files a/x and b/x differ''). isBinaryMarker l"
    using marker_examples(1) by (simp add: splitLines_single)
  have t: "map (\<lambda>r. (isBinary r, isValid r)) (splitUnifiedDiffByFile sampleTwoFiles)
     = [(False, Some True), (True, Some True)]"
    by (simp add: split_two_example)
  show ?thesis
    using e t two_files_marker_line marker_examples(2)
      binary_block_valid [of "''Binary files a/x and b/x differ''" 0 sampleTwoFiles]
    by blast
qed

section \<open>Exactness of the hash model\<close>

lemma toInt32_range: "- 2147483648 \<le> toInt32 x \<and> toInt32 x < 2147483648"
proof -
  have "0 \<le> x mod 4294967296" "x mod 4294967296 < 4294967296" by simp_all
  then show ?thesis by (auto simp: toInt32_def Let_def)
qed

lemma toInt32_cong: "toInt32 x mod 4294967296 = x mod 4294967296"
  by (simp add: toInt32_def Let_def)

text \<open>
  The running value of the hash stays below \<open>2^53\<close> in magnitude for a text shorter than
  \<open>2^21\<close> code units, so the integer model of the loop is exact there; and its residue
  modulo \<open>2^32\<close>, which is all that \<open>hashString\<close> keeps, is that of the usual
  multiply-by-33 recurrence.
\<close>

lemma hashLoop_bound:
  "\<bar>hashLoop h s\<bar> \<le> \<bar>h\<bar> + int (length s) * 2147483904"
proof (induction s arbitrary: h)
  case Nil
  show ?case by simp
next
  case (Cons c cs)
  have c: "(of_char c :: nat) < 256" by simp
  have "\<bar>shiftLeft5 h + h + int (of_char c)\<bar> \<le> \<bar>h\<bar> + 2147483904"
    using toInt32_range [of "toInt32 h * 32"] c unfolding shiftLeft5_def by linarith
  then show ?case
    using Cons.IH [of "shiftLeft5 h + h + int (of_char c)"] by (simp add: algebra_simps)
qed

lemma hashLoop_exact_range:
  assumes "length s < 2 ^ 21"
  shows "\<bar>hashLoop 5381 s\<bar> < 2 ^ 53"
proof -
  have "int (length s) \<le> 2097151" using assms by simp
  then have "int (length s) * 2147483904 \<le> 2097151 * 2147483904"
    by (rule mult_right_mono) simp
  then show ?thesis using hashLoop_bound [of 5381 s] by simp
qed

lemma hashLoop_mod:
  "hashLoop h s mod 4294967296 =
     foldl (\<lambda>a c. (a * 33 + int (of_char c)) mod 4294967296) (h mod 4294967296) s"
proof (induction s arbitrary: h)
  case Nil
  show ?case by simp
next
  case (Cons c cs)
  have "shiftLeft5 h mod 4294967296 = (h * 32) mod 4294967296"
    by (metis shiftLeft5_def toInt32_cong mod_mult_left_eq)
  then have "(shiftLeft5 h + h + int (of_char c)) mod 4294967296 =
             (h * 32 + h + int (of_char c)) mod 4294967296"
    by (metis mod_add_left_eq)
  also have "\<dots> = (h * 33 + int (of_char c)) mod 4294967296"
    by (simp add: algebra_simps)
  also have "\<dots> = ((h mod 4294967296) * 33 + int (of_char c)) mod 4294967296"
    by (metis mod_add_left_eq mod_mult_left_eq)
  finally show ?case using Cons.IH [of "shiftLeft5 h + h + int (of_char c)"] by simp
qed

section \<open>The validator in general\<close>

lemma hasHunkLoop_some_line:
  "hasHunkLoop lines i \<Longrightarrow> \<exists>l \<in> set lines. hunkHeaderRegex l"
proof (induction lines i rule: hasHunkLoop.induct)
  case (1 lines i)
  show ?case
  proof (cases "i < length lines \<and> hunkHeaderRegex (lines ! i)")
    case True
    then show ?thesis using nth_mem by blast
  next
    case False
    then have "i < length lines" "\<not> hunkHeaderRegex (lines ! i)" "hasHunkLoop lines (i + 1)"
      using "1.prems" by (auto simp: hasHunkLoop.simps [of lines i] split: if_splits)
    then show ?thesis using "1.IH" by blast
  qed
qed

lemma hasHunkLoop_at:
  "i \<le> j \<Longrightarrow> j < length lines \<Longrightarrow> hunkHeaderRegex (lines ! j) \<Longrightarrow> hasHunkLoop lines i"
proof (induction lines i rule: hasHunkLoop.induct)
  case (1 lines i)
  show ?case
  proof (cases "hunkHeaderRegex (lines ! i)")
    case True
    then show ?thesis using "1.prems" by (simp add: hasHunkLoop.simps [of lines i])
  next
    case False
    then have "i \<noteq> j" using "1.prems" by auto
    then have "i + 1 \<le> j" "i < length lines" using "1.prems" by auto
    then have "hasHunkLoop lines (i + 1)"
      using "1.IH" False "1.prems" by blast
    then show ?thesis
      using False \<open>i < length lines\<close> by (simp add: hasHunkLoop.simps [of lines i])
  qed
qed

text \<open>
  A block with none of the texts that exempt it (mode change, rename, binary) and with no
  line matching the hunk-header pattern is rejected, whatever its markers are.
\<close>

lemma validateDiffHunk_needs_hunk:
  assumes "\<not> includes_str b ''new mode''" "\<not> includes_str b ''old mode''"
    "\<not> includes_str b ''rename from''" "\<not> includes_str b ''rename to''"
    "\<not> includes_str b ''Binary files''"
    and "\<forall>l \<in> set (splitLines b). \<not> hunkHeaderRegex l"
  shows "valid (validateDiffHunk b) = False"
proof -
  have "\<not> hasHunkLoop (splitLines b) i" for i
    using assms(6) hasHunkLoop_some_line by blast
  then show ?thesis
    using assms(1-5) by (simp add: validateDiffHunk_def Let_def)
qed

lemma findIndexFrom_append:
  "findIndexFrom P xs n \<noteq> - 1 \<Longrightarrow> 0 \<le> n \<Longrightarrow>
     findIndexFrom P (xs @ ys) n = findIndexFrom P xs n"
  by (induction xs arbitrary: n) auto

lemma findIndexFrom_range:
  "0 \<le> n \<Longrightarrow> findIndexFrom P xs n = - 1 \<or>
     (n \<le> findIndexFrom P xs n \<and> findIndexFrom P xs n < n + int (length xs))"
proof (induction xs arbitrary: n)
  case Nil
  show ?case by simp
next
  case (Cons x xs)
  show ?case using Cons.IH [of "n + 1"] Cons.prems by auto
qed

text \<open>
  A block whose first old-file marker comes before its first new-file marker is accepted
  once the line \<open>@@ -1,1 +1,1 @@\<close> is appended to it.
\<close>

lemma validateDiffHunk_appended_header:
  assumes m: "findIndex (\<lambda>l. startsWith l ''--- '') (splitLines b) \<noteq> - 1"
    and p: "findIndex (\<lambda>l. startsWith l ''+++ '') (splitLines b) \<noteq> - 1"
    and o: "findIndex (\<lambda>l. startsWith l ''--- '') (splitLines b) <
            findIndex (\<lambda>l. startsWith l ''+++ '') (splitLines b)"
  shows "valid (validateDiffHunk (b @ NL # ''@@ -1,1 +1,1 @@'')) = True"
proof -
  let ?h = "''@@ -1,1 +1,1 @@''"
  let ?lines = "splitLines (b @ NL # ?h)"
  have lines: "?lines = splitLines b @ [?h]"
    by (simp add: splitLines_append_newline splitLines_single)
  have fm: "findIndex (\<lambda>l. startsWith l ''--- '') ?lines =
            findIndex (\<lambda>l. startsWith l ''--- '') (splitLines b)"
    using m by (simp add: lines findIndex_def findIndexFrom_append)
  have fp: "findIndex (\<lambda>l. startsWith l ''+++ '') ?lines =
            findIndex (\<lambda>l. startsWith l ''+++ '') (splitLines b)"
    using p by (simp add: lines findIndex_def findIndexFrom_append)
  let ?p = "findIndex (\<lambda>l. startsWith l ''+++ '') (splitLines b)"
  have pr: "0 \<le> ?p \<and> ?p < int (length (splitLines b))"
    using p findIndexFrom_range [of 0 "\<lambda>l. startsWith l ''+++ ''" "splitLines b"]
    by (simp add: findIndex_def)
  have hh: "hunkHeaderRegex ?h" by code_simp
  have "hasHunkLoop ?lines (nat (?p + 1))"
  proof (rule hasHunkLoop_at [where j = "length (splitLines b)"])
    show "nat (?p + 1) \<le> length (splitLines b)" using pr by linarith
    show "length (splitLines b) < length ?lines" by (simp add: lines)
    show "hunkHeaderRegex (?lines ! length (splitLines b))" using hh by (simp add: lines)
  qed
  moreover have "trim (b @ NL # ?h) \<noteq> []"
  proof -
    have "trim (b @ NL # ?h) =
            dropWhile isWhiteSpace (b @ [NL]) @ ?h @ rev (dropWhile isWhiteSpace (rev []))"
      using trim_keeps_solid [of ?h "b @ [NL]" "[]"] by (simp add: isWhiteSpace_def)
    then show ?thesis by simp
  qed
  ultimately show ?thesis
    using m p o by (simp add: validateDiffHunk_def Let_def fm fp del: splitLines.simps)
qed

text \<open>
  A block with the two markers in order, no hunk header and no binary marker line is
  accepted when its text holds \<open>rename to\<close> anywhere, here in an added line. A block with
  an earlier line starting with \<open>+++\<close> and a space is rejected for the order of its markers
  also after the hunk header is appended.
\<close>

theorem validateDiffHunk_exemption_counterexample:
  "list_all (\<lambda>l. \<not> hunkHeaderRegex l) (splitLines sampleRenameText) \<and>
   isBinary (parseBlock sampleRenameText 0) = False \<and>
   take 2 (splitLines sampleRenameText) = [''--- a/x'', ''+++ b/x''] \<and>
   valid (validateDiffHunk sampleRenameText) = True \<and>
   isBinary (parseBlock sampleEarlierMarker 0) = False \<and>
   drop 1 (splitLines sampleEarlierMarker) = [''--- a/x'', ''+++ b/x''] \<and>
   valid (validateDiffHunk (sampleEarlierMarker @ NL # ''@@ -1,1 +1,1 @@'')) = False"
  by code_simp

text \<open>
  C4, as amended. A block that holds none of the texts \<open>new mode\<close>, \<open>old mode\<close>,
  \<open>rename from\<close>, \<open>rename to\<close> and \<open>Binary files\<close> and has no line matching the
  hunk-header pattern is marked invalid. A block whose first line starting with \<open>---\<close>
  and a space comes before its first line starting with \<open>+++\<close> and a space is marked
  valid once the line \<open>@@ -1,1 +1,1 @@\<close> is appended. In particular the block made of
  \<open>--- a/x\<close> and \<open>+++ b/x\<close> is invalid, and valid with that line appended.
\<close>

theorem validateDiffHunk_hunk_boundary:
  "(\<not> includes_str b ''new mode'' \<and> \<not> includes_str b ''old mode'' \<and>
    \<not> includes_str b ''rename from'' \<and> \<not> includes_str b ''rename to'' \<and>
    \<not> includes_str b ''Binary files'' \<and>
    (\<forall>l \<in> set (splitLines b). \<not> hunkHeaderRegex l) \<longrightarrow>
      valid (validateDiffHunk b) = False) \<and>
   (findIndex (\<lambda>l. startsWith l ''--- '') (splitLines c) \<noteq> - 1 \<and>
    findIndex (\<lambda>l. startsWith l ''--- '') (splitLines c) <
      findIndex (\<lambda>l. startsWith l ''+++ '') (splitLines c) \<longrightarrow>
      valid (validateDiffHunk (c @ NL # ''@@ -1,1 +1,1 @@'')) = True) \<and>
   valid (validateDiffHunk (''--- a/x'' @ [NL] @ ''+++ b/x'' @ [NL])) = False \<and>
   valid (validateDiffHunk
            (''--- a/x'' @ [NL] @ ''+++ b/x'' @ [NL] @ ''@@ -1,1 +1,1 @@'')) = True \<and>
   map (\<lambda>r. (isBinary r, isValid r))
     (splitUnifiedDiffByFile (''--- a/x'' @ [NL] @ ''+++ b/x'' @ [NL]))
     = [(False, Some False)] \<and>
   map (\<lambda>r. (isBinary r, isValid r))
     (splitUnifiedDiffByFile (''--- a/x'' @ [NL] @ ''+++ b/x'' @ [NL] @ ''@@ -1,1 +1,1 @@''))
     = [(False, Some True)]"
proof (intro conjI impI)
  assume "\<not> includes_str b ''new mode'' \<and> \<not> includes_str b ''old mode'' \<and>
    \<not> includes_str b ''rename from'' \<and> \<not> includes_str b ''rename to'' \<and>
    \<not> includes_str b ''Binary files'' \<and>
    (\<forall>l \<in> set (splitLines b). \<not> hunkHeaderRegex l)"
  then show "valid (validateDiffHunk b) = False"
    using validateDiffHunk_needs_hunk [of b] by blast
next
  assume h: "findIndex (\<lambda>l. startsWith l ''--- '') (splitLines c) \<noteq> - 1 \<and>
    findIndex (\<lambda>l. startsWith l ''--- '') (splitLines c) <
      findIndex (\<lambda>l. startsWith l ''+++ '') (splitLines c)"
  have "0 \<le> findIndex (\<lambda>l. startsWith l ''--- '') (splitLines c)"
    using h findIndexFrom_range [of 0 "\<lambda>l. startsWith l ''--- ''" "splitLines c"]
    by (simp add: findIndex_def)
  then have "findIndex (\<lambda>l. startsWith l ''+++ '') (splitLines c) \<noteq> - 1"
    using h by linarith
  then show "valid (validateDiffHunk (c @ NL # ''@@ -1,1 +1,1 @@'')) = True"
    using h validateDiffHunk_appended_header [of c] by blast
qed (code_simp+)

theorem validateDiffHunk_hunk_boundary_witness:
  "\<not> includes_str (''--- a/x'' @ [NL] @ ''+++ b/x'' @ [NL]) ''new mode'' \<and>
   \<not> includes_str (''--- a/x'' @ [NL] @ ''+++ b/x'' @ [NL]) ''old mode'' \<and>
   \<not> includes_str (''--- a/x'' @ [NL] @ ''+++ b/x'' @ [NL]) ''rename from'' \<and>
   \<not> includes_str (''--- a/x'' @ [NL] @ ''+++ b/x'' @ [NL]) ''rename to'' \<and>
   \<not> includes_str (''--- a/x'' @ [NL] @ ''+++ b/x'' @ [NL]) ''Binary files'' \<and>
   list_all (\<lambda>l. \<not> hunkHeaderRegex l) (splitLines (''--- a/x'' @ [NL] @ ''+++ b/x'' @ [NL])) \<and>
   valid (validateDiffHunk (''--- a/x'' @ [NL] @ ''+++ b/x'' @ [NL])) = False \<and>
   findIndex (\<lambda>l. startsWith l ''--- '') (splitLines (''--- a/x'' @ [NL] @ ''+++ b/x'')) = 0 \<and>
   findIndex (\<lambda>l. startsWith l ''+++ '') (splitLines (''--- a/x'' @ [NL] @ ''+++ b/x'')) = 1 \<and>
   valid (validateDiffHunk
            ((''--- a/x'' @ [NL] @ ''+++ b/x'') @ NL # ''@@ -1,1 +1,1 @@'')) = True"
proof -
  let ?b = "''--- a/x'' @ [NL] @ ''+++ b/x'' @ [NL]"
  let ?c = "''--- a/x'' @ [NL] @ ''+++ b/x''"
  have e: "\<not> includes_str ?b ''new mode''" "\<not> includes_str ?b ''old mode''"
    "\<not> includes_str ?b ''rename from''" "\<not> includes_str ?b ''rename to''"
    "\<not> includes_str ?b ''Binary files''"
    by code_simp+
  have n: "list_all (\<lambda>l. \<not> hunkHeaderRegex l) (splitLines ?b)" by code_simp
  have n': "\<forall>l \<in> set (splitLines ?b). \<not> hunkHeaderRegex l"
    using n by (simp only: list_all_iff)
  have m: "findIndex (\<lambda>l. startsWith l ''--- '') (splitLines ?c) = 0" by code_simp
  have p: "findIndex (\<lambda>l. startsWith l ''+++ '') (splitLines ?c) = 1" by code_simp
  have inv: "valid (validateDiffHunk ?b) = False"
    using validateDiffHunk_hunk_boundary [of ?b ?c] e n' by blast
  have "findIndex (\<lambda>l. startsWith l ''--- '') (splitLines ?c) \<noteq> - 1 \<and>
        findIndex (\<lambda>l. startsWith l ''--- '') (splitLines ?c) <
          findIndex (\<lambda>l. startsWith l ''+++ '') (splitLines ?c)"
    by (simp only: m p) simp
  then have val: "valid (validateDiffHunk (?c @ NL # ''@@ -1,1 +1,1 @@'')) = True"
    using validateDiffHunk_hunk_boundary [of ?b ?c] by blast
  show ?thesis
    using e n m p inv val by (intro conjI)
qed

section \<open>Line counts and marker lines\<close>











section \<open>The displayed list and its consumers\<close>

lemma fileDiffs_idem: "fileDiffs (filter isDisplayable allFiles) ef = fileDiffs allFiles ef"
  by (simp add: fileDiffs_def Let_def)

lemma markAllViewed_dom:
  "dom (viewedFiles (markAllViewed files s)) = key ` set files"
proof -
  have "fst (foldl markAllStep acc files) k \<noteq> None \<longleftrightarrow> fst acc k \<noteq> None \<or> k \<in> key ` set files"
    for acc k
    by (induction files arbitrary: acc rule: rev_induct) (auto simp: markAllStep_def)
  then show ?thesis
    by (auto simp: markAllViewed_def Let_def dom_def)
qed

lemma getViewedCount_le: "getViewedCount files vf \<le> length files"
  by (simp add: getViewedCount_def)

lemma split_hidden_example:
  "splitUnifiedDiffByFile sampleHiddenRecord
   = [\<lparr>key = ''x->x'', oldPath = ''x'', newPath = ''x'',
       diffText = ''diff --git a/x b/x'' @ [NL] @ ''--- a/x'' @ [NL] @ ''+++ b/x'' @ [NL] @
                  ''@@ -1 +1 @@'' @ [NL] @ ''-a'' @ [NL] @ ''+b'',
       isBinary = False, additions = 1, deletions = 1, isValid = Some True\<rparr>,
      \<lparr>key = ''/dev/null->/dev/null'', oldPath = ''/dev/null'', newPath = ''/dev/null'',
       diffText = ''diff --git a/n b/n'' @ [NL] @ ''--- /dev/null'' @ [NL] @
                  ''+++ /dev/null'' @ [NL] @ ''@@ -0,0 +1 @@'' @ [NL] @ ''+z'',
       isBinary = False, additions = 1, deletions = 0, isValid = Some True\<rparr>]"
  by code_simp

lemma split_binary_between_example:
  "splitUnifiedDiffByFile sampleBinaryBetween
   = [\<lparr>key = ''x->x'', oldPath = ''x'', newPath = ''x'',
       diffText = ''diff --git a/x b/x'' @ [NL] @ ''--- a/x'' @ [NL] @ ''+++ b/x'' @ [NL] @
                  ''@@ -1 +1 @@'' @ [NL] @ ''-a'' @ [NL] @ ''+b'',
       isBinary = False, additions = 1, deletions = 1, isValid = Some True\<rparr>,
      \<lparr>key = ''file-1'', oldPath = [], newPath = [],
       diffText = ''diff --git a/i.png b/i.png'' @ [NL] @
                  ''Binary files a/i.png and b/i.png differ'',
       isBinary = True, additions = 0, deletions = 0, isValid = Some True\<rparr>,
      \<lparr>key = ''y->y'', oldPath = ''y'', newPath = ''y'',
       diffText = ''diff --git a/y b/y'' @ [NL] @ ''--- a/y'' @ [NL] @ ''+++ b/y'' @ [NL] @
                  ''@@ -1 +1 @@'' @ [NL] @ ''-a'' @ [NL] @ ''+c'',
       isBinary = False, additions = 1, deletions = 1, isValid = Some True\<rparr>]"
  by code_simp

lemma hidden_displayed:
  "map key (fileDiffs (splitUnifiedDiffByFile sampleHiddenRecord) None) = [''x->x'']"
  by (simp add: fileDiffs_def split_hidden_example isDisplayable_def startsWith_def)

lemma binary_between_displayed:
  "map key (fileDiffs (splitUnifiedDiffByFile sampleBinaryBetween) None) = [''x->x'', ''y->y'']"
  by (simp add: fileDiffs_def split_binary_between_example isDisplayable_def startsWith_def)

text \<open>
  A record with both paths \<open>/dev/null\<close> is not displayed, yet its added line is counted in
  the total shown beside the displayed file count. A path-less binary record is not
  displayed, yet the search for the next unviewed file, which runs over the unfiltered
  list, returns it.
\<close>

theorem fileDiffs_consumers_counterexample:
  "map key (fileDiffs (splitUnifiedDiffByFile sampleHiddenRecord) None) = [''x->x''] \<and>
   map additions (fileDiffs (splitUnifiedDiffByFile sampleHiddenRecord) None) = [1] \<and>
   totalAdditions (splitUnifiedDiffByFile sampleHiddenRecord) = 2 \<and>
   map key (fileDiffs (splitUnifiedDiffByFile sampleBinaryBetween) None) = [''x->x'', ''y->y''] \<and>
   map_option key (nextUnviewedFile (splitUnifiedDiffByFile sampleBinaryBetween) Map.empty 0)
     = Some ''file-1''"
proof (intro conjI)
  show "map key (fileDiffs (splitUnifiedDiffByFile sampleHiddenRecord) None) = [''x->x'']"
    by (rule hidden_displayed)
  show "map additions (fileDiffs (splitUnifiedDiffByFile sampleHiddenRecord) None) = [1]"
    by (simp add: fileDiffs_def split_hidden_example isDisplayable_def startsWith_def)
  show "totalAdditions (splitUnifiedDiffByFile sampleHiddenRecord) = 2"
    by (simp add: totalAdditions_def split_hidden_example)
  show "map key (fileDiffs (splitUnifiedDiffByFile sampleBinaryBetween) None)
          = [''x->x'', ''y->y'']"
    by (rule binary_between_displayed)
  show "map_option key (nextUnviewedFile (splitUnifiedDiffByFile sampleBinaryBetween) Map.empty 0)
          = Some ''file-1''"
    by (simp add: nextUnviewedFile_def split_binary_between_example isFileViewed_def)
qed

text \<open>
  C10, as amended. The displayed list \<open>fileDiffs\<close> is a subsequence of the list it is
  computed from and holds no record whose key starts with \<open>file-\<close> while both paths are
  empty and no record whose two paths are both \<open>/dev/null\<close>, although the splitter returns
  such records. Removing those records from the input beforehand leaves the displayed list
  unchanged, so they have no part in what is rendered nor in what iterates the displayed
  list: the viewed count counts displayed records only, mark-all-viewed stores state for
  the keys of displayed records only, and the stale-invalidation effect changes the state of
  no other key.
\<close>

theorem fileDiffs_excludes_from_display:
  "subseq (fileDiffs allFiles ef) allFiles \<and>
   (\<forall>f \<in> set (fileDiffs allFiles ef).
      \<not> (startsWith (key f) ''file-'' \<and> oldPath f = [] \<and> newPath f = []) \<and>
      \<not> (oldPath f = ''/dev/null'' \<and> newPath f = ''/dev/null'')) \<and>
   fileDiffs (filter isDisplayable allFiles) ef = fileDiffs allFiles ef \<and>
   getViewedCount (fileDiffs allFiles ef) vf \<le> length (filter isDisplayable allFiles) \<and>
   dom (viewedFiles (markAllViewed (fileDiffs allFiles ef) s)) = key ` set (fileDiffs allFiles ef) \<and>
   (k \<notin> key ` set (fileDiffs allFiles ef) \<longrightarrow>
      invalidateStale (fileDiffs allFiles ef) vf k = vf k) \<and>
   map (\<lambda>r. (key r, oldPath r, newPath r)) (splitUnifiedDiffByFile sampleBinaryOnly)
     = [(''file-0'', [], [])] \<and>
   map (\<lambda>r. (key r, oldPath r, newPath r)) (splitUnifiedDiffByFile sampleNullPaths)
     = [(''/dev/null->/dev/null'', ''/dev/null'', ''/dev/null'')] \<and>
   fileDiffs (splitUnifiedDiffByFile sampleBinaryOnly) ef = [] \<and>
   fileDiffs (splitUnifiedDiffByFile sampleNullPaths) ef = []"
proof (intro conjI ballI impI)
  show "subseq (fileDiffs allFiles ef) allFiles"
    by (rule fileDiffs_subseq)
next
  fix f assume "f \<in> set (fileDiffs allFiles ef)"
  then have d: "isDisplayable f" by (rule fileDiffs_displayable)
  show "\<not> (startsWith (key f) ''file-'' \<and> oldPath f = [] \<and> newPath f = [])"
    using d by (simp add: isDisplayable_iff)
  show "\<not> (oldPath f = ''/dev/null'' \<and> newPath f = ''/dev/null'')"
    using d by (simp add: isDisplayable_iff)
next
  show "fileDiffs (filter isDisplayable allFiles) ef = fileDiffs allFiles ef"
    by (rule fileDiffs_idem)
next
  obtain P where "fileDiffs allFiles ef = filter P (filter isDisplayable allFiles)"
    using fileDiffs_filter by blast
  then have "length (fileDiffs allFiles ef) \<le> length (filter isDisplayable allFiles)"
    by (simp only: length_filter_le)
  then show "getViewedCount (fileDiffs allFiles ef) vf \<le> length (filter isDisplayable allFiles)"
    using getViewedCount_le [of "fileDiffs allFiles ef" vf] by linarith
next
  show "dom (viewedFiles (markAllViewed (fileDiffs allFiles ef) s))
          = key ` set (fileDiffs allFiles ef)"
    by (rule markAllViewed_dom)
next
  assume "k \<notin> key ` set (fileDiffs allFiles ef)"
  then show "invalidateStale (fileDiffs allFiles ef) vf k = vf k"
    by (auto simp: invalidateStale_lookup)
next
  show "map (\<lambda>r. (key r, oldPath r, newPath r)) (splitUnifiedDiffByFile sampleBinaryOnly)
     = [(''file-0'', [], [])]"
    by (simp add: split_binary_example)
next
  show "map (\<lambda>r. (key r, oldPath r, newPath r)) (splitUnifiedDiffByFile sampleNullPaths)
     = [(''/dev/null->/dev/null'', ''/dev/null'', ''/dev/null'')]"
    by (simp add: split_null_example)
next
  show "fileDiffs (splitUnifiedDiffByFile sampleBinaryOnly) ef = []"
    by (rule fileDiffs_none_displayable [OF not_displayable_binary])
next
  show "fileDiffs (splitUnifiedDiffByFile sampleNullPaths) ef = []"
    by (rule fileDiffs_none_displayable [OF not_displayable_null])
qed

theorem fileDiffs_excludes_from_display_witness:
  "(let shown = fileDiffs (splitUnifiedDiffByFile sampleHiddenRecord) None
    in length (splitUnifiedDiffByFile sampleHiddenRecord) = 2 \<and>
       map key shown = [''x->x''] \<and> hd shown \<in> set shown \<and>
       \<not> (startsWith (key (hd shown)) ''file-'' \<and> oldPath (hd shown) = [] \<and>
            newPath (hd shown) = []) \<and>
       \<not> (oldPath (hd shown) = ''/dev/null'' \<and> newPath (hd shown) = ''/dev/null'') \<and>
       ''/dev/null->/dev/null'' \<notin> key ` set shown \<and>
       dom (viewedFiles (markAllViewed shown emptyViewState)) = {''x->x''} \<and>
       invalidateStale shown
         [''/dev/null->/dev/null'' \<mapsto> \<lparr>viewed = True, contentHash = ''stale''\<rparr>]
         ''/dev/null->/dev/null''
         = Some \<lparr>viewed = True, contentHash = ''stale''\<rparr>)"
proof -
  define shown where "shown = fileDiffs (splitUnifiedDiffByFile sampleHiddenRecord) None"
  have l: "length (splitUnifiedDiffByFile sampleHiddenRecord) = 2"
    by (simp add: split_hidden_example)
  have k: "map key shown = [''x->x'']"
    unfolding shown_def by (rule hidden_displayed)
  then have ks: "key ` set shown = {''x->x''}"
    by (metis list.set_map list.simps(15) empty_set)
  have m: "hd shown \<in> set shown" using k by (cases shown) auto
  have nk: "''/dev/null->/dev/null'' \<notin> key ` set shown" by (simp add: ks)
  have t: "(\<not> (startsWith (key (hd shown)) ''file-'' \<and> oldPath (hd shown) = [] \<and>
            newPath (hd shown) = []) \<and>
       \<not> (oldPath (hd shown) = ''/dev/null'' \<and> newPath (hd shown) = ''/dev/null'')) \<and>
       dom (viewedFiles (markAllViewed shown emptyViewState)) = key ` set shown \<and>
       invalidateStale shown
         [''/dev/null->/dev/null'' \<mapsto> \<lparr>viewed = True, contentHash = ''stale''\<rparr>]
         ''/dev/null->/dev/null''
         = [''/dev/null->/dev/null'' \<mapsto> \<lparr>viewed = True, contentHash = ''stale''\<rparr>]
             ''/dev/null->/dev/null''"
    using m nk
      fileDiffs_excludes_from_display
        [of "splitUnifiedDiffByFile sampleHiddenRecord" None
            "[''/dev/null->/dev/null'' \<mapsto> \<lparr>viewed = True, contentHash = ''stale''\<rparr>]"
            emptyViewState "''/dev/null->/dev/null''"]
    unfolding shown_def [symmetric] by blast
  show ?thesis
    unfolding shown_def [symmetric] Let_def
    using l k m nk t by (simp add: ks)
qed

end
